theory Spec2Isabelle
  imports Main "HOL-Library.Monad_Syntax"
begin

section \<open>Strings and characters\<close>

text \<open>
  A source string is a sequence of UTF-16 code units; \<open>length\<close>, \<open>split\<close>, \<open>trim\<close>
  and the regular expressions of the source all work on code units.  The model uses
  \<open>string\<close>, one \<open>char\<close> per code unit, which covers the code units 0 to 255.
  The character classes below are the source's classes cut to that range.
\<close>

definition code :: "char \<Rightarrow> int" where
  "code c = of_char c"

text \<open>The class \<open>\s\<close>, which is also what \<open>trim\<close> strips: tab, line feed, vertical tab,
  form feed, carriage return, space and the no-break space.\<close>

definition isSpace :: "char \<Rightarrow> bool" where
  "isSpace c = (code c \<in> {9, 10, 11, 12, 13, 32, 160})"

text \<open>The class \<open>\d\<close>.\<close>

definition isDigit :: "char \<Rightarrow> bool" where
  "isDigit c = (48 \<le> code c \<and> code c \<le> 57)"

text \<open>The classes \<open>[A-Z]\<close>, \<open>[a-z]\<close>, \<open>[a-zA-Z]\<close> and \<open>\w\<close>.\<close>

definition isUpper :: "char \<Rightarrow> bool" where
  "isUpper c = (65 \<le> code c \<and> code c \<le> 90)"

definition isLower :: "char \<Rightarrow> bool" where
  "isLower c = (97 \<le> code c \<and> code c \<le> 122)"

definition isAlpha :: "char \<Rightarrow> bool" where
  "isAlpha c = (isLower c \<or> isUpper c)"

definition isWord :: "char \<Rightarrow> bool" where
  "isWord c = (isAlpha c \<or> isDigit c \<or> c = CHR ''_'')"

text \<open>A line terminator, which the regular expression \<open>.\<close> does not match.  In the
  source's alphabet of UTF-16 code units these are the line feed, the carriage return,
  U+2028 and U+2029; the strings here are made of the code units 0 to 255, among which
  only the first two occur.\<close>

definition isLineTerminator :: "char \<Rightarrow> bool" where
  "isLineTerminator c = (code c = 10 \<or> code c = 13)"

definition newline :: char where
  "newline = CHR 0x0A"

text \<open>\<open>String.prototype.trim\<close>.\<close>

definition trim :: "string \<Rightarrow> string" where
  "trim s = rev (dropWhile isSpace (rev (dropWhile isSpace s)))"

text \<open>\<open>s.split(d)\<close> for a one-character separator \<open>d\<close>: the result is never empty, and
  the empty string splits into one empty piece.\<close>

fun split :: "char \<Rightarrow> string \<Rightarrow> string list" where
  "split d [] = [[]]"
| "split d (c # cs) =
     (if c = d then [] # split d cs
      else (case split d cs of w # ws \<Rightarrow> (c # w) # ws | [] \<Rightarrow> [[c]]))"

text \<open>\<open>s.startsWith(p)\<close> and \<open>s.endsWith(p)\<close>.\<close>

definition startsWith :: "string \<Rightarrow> string \<Rightarrow> bool" where
  "startsWith s p = (take (length p) s = p)"

definition endsWith :: "string \<Rightarrow> string \<Rightarrow> bool" where
  "endsWith s p = (length p \<le> length s \<and> drop (length s - length p) s = p)"

section \<open>Regular-expression pieces\<close>

text \<open>
  Every regular expression of the source is anchored at the start of the string and is
  a sequence of pieces in which a repeated class is always followed by a class disjoint
  from it (or by the end of the pattern).  For such a pattern the greedy match is the
  only candidate, so each piece is a function that consumes its part of the string and
  returns the rest, or \<open>None\<close> when it does not match.
\<close>

text \<open>\<open>\s*\<close>\<close>

definition skipWs :: "string \<Rightarrow> string" where
  "skipWs s = dropWhile isSpace s"

text \<open>\<open>\s+\<close>\<close>

definition ws1 :: "string \<Rightarrow> string option" where
  "ws1 s = (case s of [] \<Rightarrow> None | c # cs \<Rightarrow> if isSpace c then Some (skipWs cs) else None)"

text \<open>\<open>\d+\<close>\<close>

definition digits1 :: "string \<Rightarrow> string option" where
  "digits1 s = (case s of [] \<Rightarrow> None
     | c # cs \<Rightarrow> if isDigit c then Some (dropWhile isDigit cs) else None)"

text \<open>One character of a class given by its members, such as \<open>[\.)]\<close>.\<close>

definition oneOf :: "string \<Rightarrow> string \<Rightarrow> string option" where
  "oneOf cls s = (case s of [] \<Rightarrow> None | c # cs \<Rightarrow> if c \<in> set cls then Some cs else None)"

text \<open>One character of a class given by a predicate, such as \<open>[a-zA-Z]\<close>.\<close>

definition oneSat :: "(char \<Rightarrow> bool) \<Rightarrow> string \<Rightarrow> string option" where
  "oneSat P s = (case s of [] \<Rightarrow> None | c # cs \<Rightarrow> if P c then Some cs else None)"

text \<open>Case-insensitive matching (flag \<open>i\<close>): letters are compared after folding the
  ASCII capitals to lower case.\<close>

definition lowerAscii :: "char \<Rightarrow> char" where
  "lowerAscii c = (if isUpper c then char_of (code c + 32) else c)"

definition eqCI :: "string \<Rightarrow> string \<Rightarrow> bool" where
  "eqCI s t = (map lowerAscii s = map lowerAscii t)"

text \<open>A literal prefix, compared without case.\<close>

definition litCI :: "string \<Rightarrow> string \<Rightarrow> string option" where
  "litCI p s = (if eqCI (take (length p) s) p then Some (drop (length p) s) else None)"

text \<open>An alternation of literals \<open>(a|b|c)\<close>, compared without case; the first
  alternative that matches is taken (in the source's tables no alternative is a prefix
  of another one).\<close>

fun altCI :: "string list \<Rightarrow> string \<Rightarrow> string option" where
  "altCI [] s = None"
| "altCI (p # ps) s = (case litCI p s of Some r \<Rightarrow> Some r | None \<Rightarrow> altCI ps s)"

section \<open>Blocks\<close>

datatype block_type = Heading | Paragraph | List | Code | Quote

datatype list_kind = Bullet | Numbered

text \<open>A JavaScript number as far as the list index needs it: an integer or \<open>NaN\<close>.\<close>

datatype jsnumber = NaN | Num int

text \<open>The type \<open>Block\<close>.  The optional \<open>metadata\<close> object is flattened: a block without
  metadata has \<open>None\<close> in its three fields.  The heading level is a natural number, as
  every level the analyzer produces is.\<close>

record Block =
  btype :: block_type
  content :: string
  level :: "nat option"
  listType :: "list_kind option"
  listIndex :: "jsnumber option"

definition mkBlock :: "block_type \<Rightarrow> string \<Rightarrow> Block" where
  "mkBlock t c = \<lparr>btype = t, content = c, level = None, listType = None, listIndex = None\<rparr>"

definition headingBlock :: "string \<Rightarrow> nat option \<Rightarrow> Block" where
  "headingBlock c l = \<lparr>btype = Heading, content = c, level = l, listType = None, listIndex = None\<rparr>"

definition listBlock :: "string \<Rightarrow> list_kind \<Rightarrow> jsnumber option \<Rightarrow> Block" where
  "listBlock c k i = \<lparr>btype = List, content = c, level = None, listType = Some k, listIndex = i\<rparr>"

section \<open>List detection\<close>

text \<open>The four entries of \<open>listPatterns\<close>, in the source's order:
  \<^verbatim>\<open>/^\s*([-*+])\s+/\<close>, \<^verbatim>\<open>/^\s*\d+[\.)]\s+/\<close>, \<^verbatim>\<open>/^\s*[a-zA-Z][\.)]\s+/\<close>,
  \<^verbatim>\<open>/^\s*\(\d+\)\s+/\<close>.\<close>

datatype list_pattern = BulletPat | NumberedPat | LetteredPat | ParenPat

definition listPatterns :: "list_pattern list" where
  "listPatterns = [BulletPat, NumberedPat, LetteredPat, ParenPat]"

text \<open>\<open>line.match(pattern)\<close>: on a match, capture group 1 (only the bullet pattern has
  one) and the text after the matched prefix.\<close>

fun matchPattern :: "list_pattern \<Rightarrow> string \<Rightarrow> (string option \<times> string) option" where
  "matchPattern BulletPat line =
     (case skipWs line of [] \<Rightarrow> None
      | c # r \<Rightarrow> if c \<in> set ''-*+'' then do { r' \<leftarrow> ws1 r; Some (Some [c], r') } else None)"
| "matchPattern NumberedPat line =
     do { r \<leftarrow> digits1 (skipWs line); r \<leftarrow> oneOf ''.)'' r; r \<leftarrow> ws1 r; Some (None, r) }"
| "matchPattern LetteredPat line =
     do { r \<leftarrow> oneSat isAlpha (skipWs line); r \<leftarrow> oneOf ''.)'' r; r \<leftarrow> ws1 r; Some (None, r) }"
| "matchPattern ParenPat line =
     do { r \<leftarrow> oneOf ''('' (skipWs line); r \<leftarrow> digits1 r; r \<leftarrow> oneOf '')'' r; r \<leftarrow> ws1 r;
          Some (None, r) }"

text \<open>\<open>line.replace(pattern, '')\<close>: the matched prefix is removed; without a match the
  line is unchanged.\<close>

definition removePattern :: "list_pattern \<Rightarrow> string \<Rightarrow> string" where
  "removePattern p line = (case matchPattern p line of Some (_, r) \<Rightarrow> r | None \<Rightarrow> line)"

text \<open>The test \<^verbatim>\<open>/^\s*\d+[\.)]/\<close> that decides the kind.\<close>

definition digitMarker :: "string \<Rightarrow> bool" where
  "digitMarker line = (do { r \<leftarrow> digits1 (skipWs line); oneOf ''.)'' r } \<noteq> None)"

record list_match =
  lm_type :: list_kind
  lm_pattern :: list_pattern
  lm_index :: "string option"

fun detectLoop :: "list_pattern list \<Rightarrow> string \<Rightarrow> list_match option" where
  "detectLoop [] line = None"
| "detectLoop (p # ps) line =
     (case matchPattern p line of
        Some (g, _) \<Rightarrow>
          Some \<lparr>lm_type = (if digitMarker line then Numbered else Bullet),
                lm_pattern = p, lm_index = g\<rparr>
      | None \<Rightarrow> detectLoop ps line)"

definition detectListType :: "string \<Rightarrow> list_match option" where
  "detectListType line = detectLoop listPatterns line"

text \<open>\<open>parseInt(s, 10)\<close>: leading white space, an optional sign, then the longest run
  of digits; \<open>NaN\<close> when there is no digit.\<close>

definition digitVal :: "char \<Rightarrow> int" where
  "digitVal c = code c - 48"

definition decimalValue :: "string \<Rightarrow> int" where
  "decimalValue ds = foldl (\<lambda>n c. 10 * n + digitVal c) 0 ds"

definition parseInt :: "string \<Rightarrow> jsnumber" where
  "parseInt s =
     (let r = skipWs s;
          neg = (r \<noteq> [] \<and> hd r = CHR ''-'');
          r' = (if r \<noteq> [] \<and> hd r \<in> set ''+-'' then tl r else r);
          ds = takeWhile isDigit r'
      in if ds = [] then NaN else Num ((if neg then -1 else 1) * decimalValue ds))"

text \<open>\<open>listMatch.index || '1'\<close>: an absent or empty capture is replaced by \<open>'1'\<close>.\<close>

definition indexOrOne :: "string option \<Rightarrow> string" where
  "indexOrOne g = (case g of None \<Rightarrow> ''1'' | Some s \<Rightarrow> if s = [] then ''1'' else s)"

section \<open>Heading heuristics\<close>

text \<open>The entries of \<open>metadataPatterns\<close>, in the source's order, each with its level:
  \<^verbatim>\<open>/^r\/[a-zA-Z0-9_]+$/\<close>, \<^verbatim>\<open>/^\/r\/[a-zA-Z0-9_]+$/\<close>,
  \<^verbatim>\<open>/^(About|Description|Overview|Rules|Information)$/i\<close>,
  \<^verbatim>\<open>/^(Created|Members|Online|Public|Private|Restricted)$/i\<close>,
  \<^verbatim>\<open>/^(Rank|Status|Category|Type)(\s+by\s+\w+)?$/i\<close>,
  \<^verbatim>\<open>/^(User|Moderator|Admin|Author)s?\s*(flair|info|details)?$/i\<close>,
  \<^verbatim>\<open>/^u\/[a-zA-Z0-9_-]+$/\<close>.\<close>

definition nameTag :: "string \<Rightarrow> (char \<Rightarrow> bool) \<Rightarrow> string \<Rightarrow> bool" where
  "nameTag p ok s = (take (length p) s = p \<and> drop (length p) s \<noteq> [] \<and>
     list_all ok (drop (length p) s))"

definition wholeCI :: "string list \<Rightarrow> string \<Rightarrow> bool" where
  "wholeCI alts s = list_ex (eqCI s) alts"

definition rankPattern :: "string \<Rightarrow> bool" where
  "rankPattern s =
     (case altCI [''Rank'', ''Status'', ''Category'', ''Type''] s of
        None \<Rightarrow> False
      | Some r \<Rightarrow> r = [] \<or>
          (case do { r \<leftarrow> ws1 r; r \<leftarrow> litCI ''by'' r; ws1 r } of
             None \<Rightarrow> False
           | Some w \<Rightarrow> w \<noteq> [] \<and> list_all isWord w))"

definition rolePattern :: "string \<Rightarrow> bool" where
  "rolePattern s =
     (case altCI [''User'', ''Moderator'', ''Admin'', ''Author''] s of
        None \<Rightarrow> False
      | Some r \<Rightarrow>
          (let r1 = (case litCI ''s'' r of Some t \<Rightarrow> t | None \<Rightarrow> r);
               r2 = skipWs r1
           in r2 = [] \<or> wholeCI [''flair'', ''info'', ''details''] r2))"

definition metadataPatterns :: "((string \<Rightarrow> bool) \<times> nat) list" where
  "metadataPatterns =
     [(nameTag ''r/'' isWord, 1),
      (nameTag ''/r/'' isWord, 1),
      (wholeCI [''About'', ''Description'', ''Overview'', ''Rules'', ''Information''], 2),
      (wholeCI [''Created'', ''Members'', ''Online'', ''Public'', ''Private'', ''Restricted''], 3),
      (rankPattern, 3),
      (rolePattern, 4),
      (nameTag ''u/'' (\<lambda>c. isWord c \<or> c = CHR ''-''), 4)]"

text \<open>The loop over the pattern table: the level of the first pattern that matches.\<close>

fun firstPattern :: "((string \<Rightarrow> bool) \<times> nat) list \<Rightarrow> string \<Rightarrow> nat option" where
  "firstPattern [] line = None"
| "firstPattern ((p, l) # ps) line = (if p line then Some l else firstPattern ps line)"

text \<open>\<^verbatim>\<open>line.match(/^(#{1,6})\s+(.*)/)\<close>: the number of \<open>#\<close> and capture group 2.\<close>

definition atxMatch :: "string \<Rightarrow> (nat \<times> string) option" where
  "atxMatch line =
     (let n = length (takeWhile (\<lambda>c. c = CHR ''#'') line)
      in if 1 \<le> n \<and> n \<le> 6
         then do { r \<leftarrow> ws1 (drop n line); Some (n, takeWhile (\<lambda>c. \<not> isLineTerminator c) r) }
         else None)"

text \<open>\<^verbatim>\<open>/^===+$/\<close> and \<^verbatim>\<open>/^---+$/\<close>: three or more of the character and nothing else.\<close>

definition underline :: "char \<Rightarrow> string \<Rightarrow> bool" where
  "underline c s = (3 \<le> length s \<and> list_all (\<lambda>x. x = c) s)"

text \<open>\<open>isTitleCase\<close>.  A word counts when it matches \<^verbatim>\<open>/^[A-Z][a-z]/\<close> or
  \<^verbatim>\<open>/^[A-Z]+$/\<close>.  The source compares the quotient of the two counts with \<open>0.6\<close>
  in floating point; for the lengths a string can have this is the comparison of
  \<open>5 * count\<close> with \<open>3 * total\<close> in the integers, as written here.\<close>

definition capitalStart :: "string \<Rightarrow> bool" where
  "capitalStart w = (case w of a # b # _ \<Rightarrow> isUpper a \<and> isLower b | _ \<Rightarrow> False)"

definition allCapitals :: "string \<Rightarrow> bool" where
  "allCapitals w = (w \<noteq> [] \<and> list_all isUpper w)"

definition isTitleCase :: "string \<Rightarrow> bool" where
  "isTitleCase line =
     (let words = split CHR '' '' line;
          titleCaseWords = filter (\<lambda>word. capitalStart word \<or> allCapitals word) words
      in 5 * length titleCaseWords > 3 * length words)"

record heading_analysis =
  isHeading :: bool
  headingText :: string
  remainingContent :: string
  hlevel :: "nat option"

definition analyzeHeading :: "string \<Rightarrow> string list \<Rightarrow> nat \<Rightarrow> heading_analysis" where
  "analyzeHeading line lines index =
     (case atxMatch line of
        Some (n, g2) \<Rightarrow>
          \<lparr>isHeading = True, headingText = trim g2, remainingContent = [], hlevel = Some n\<rparr>
      | None \<Rightarrow>
          if index + 1 < length lines \<and> underline CHR ''='' (lines ! (index + 1)) then
            \<lparr>isHeading = True, headingText = trim line, remainingContent = [], hlevel = Some 1\<rparr>
          else if index + 1 < length lines \<and> underline CHR ''-'' (lines ! (index + 1)) then
            \<lparr>isHeading = True, headingText = trim line, remainingContent = [], hlevel = Some 2\<rparr>
          else
            (case firstPattern metadataPatterns line of
               Some l \<Rightarrow>
                 \<lparr>isHeading = True, headingText = trim line, remainingContent = [],
                  hlevel = Some l\<rparr>
             | None \<Rightarrow>
                 if isTitleCase line \<and> length line < 60 then
                   \<lparr>isHeading = True, headingText = trim line, remainingContent = [],
                    hlevel = Some 2\<rparr>
                 else
                   \<lparr>isHeading = False, headingText = [], remainingContent = line,
                    hlevel = None\<rparr>))"

section \<open>The block assembler\<close>

text \<open>The variables of \<open>analyzeTextStructure\<close> that the loop body updates.\<close>

record astate =
  blocks :: "Block list"
  currentBlock :: "Block option"
  inCodeBlock :: bool
  codeBlockContent :: string

definition initState :: astate where
  "initState = \<lparr>blocks = [], currentBlock = None, inCodeBlock = False, codeBlockContent = []\<rparr>"

text \<open>\<open>blocks.push(currentBlock)\<close> when there is a current block.\<close>

definition pushCurrent :: "astate \<Rightarrow> Block list" where
  "pushCurrent st = (case currentBlock st of None \<Rightarrow> blocks st | Some b \<Rightarrow> blocks st @ [b])"

text \<open>The body of the \<open>forEach\<close>, for the line \<open>line\<close> at position \<open>index\<close> of \<open>lines\<close>.\<close>

definition analyzeLine :: "string list \<Rightarrow> astate \<Rightarrow> nat \<times> string \<Rightarrow> astate" where
  "analyzeLine lines st il =
     (let index = fst il; line = snd il; trimmedLine = trim line in
      if startsWith trimmedLine ''```'' then
        (if inCodeBlock st then
           st\<lparr>inCodeBlock := False,
              blocks := blocks st @ [mkBlock Code (codeBlockContent st)],
              codeBlockContent := []\<rparr>
         else st\<lparr>inCodeBlock := True\<rparr>)
      else if inCodeBlock st then
        st\<lparr>codeBlockContent := codeBlockContent st @ line @ [newline]\<rparr>
      else if trimmedLine = [] then
        (case currentBlock st of
           Some b \<Rightarrow> if btype b \<noteq> List then st\<lparr>blocks := blocks st @ [b], currentBlock := None\<rparr>
                     else st
         | None \<Rightarrow> st)
      else if startsWith trimmedLine ''>'' then
        (let quoteContent = (case tl trimmedLine of c # r \<Rightarrow> if isSpace c then r else c # r
                                                   | [] \<Rightarrow> [])
         in case currentBlock st of
              Some b \<Rightarrow>
                if btype b = Quote then
                  st\<lparr>currentBlock := Some (b\<lparr>content := content b @ [newline] @ quoteContent\<rparr>)\<rparr>
                else st\<lparr>blocks := blocks st @ [b],
                        currentBlock := Some (mkBlock Quote quoteContent)\<rparr>
            | None \<Rightarrow> st\<lparr>currentBlock := Some (mkBlock Quote quoteContent)\<rparr>)
      else
        (case detectListType line of
           Some listMatch \<Rightarrow>
             (let st1 = (case currentBlock st of
                           Some b \<Rightarrow> if btype b \<noteq> List
                                     then st\<lparr>blocks := blocks st @ [b], currentBlock := None\<rparr>
                                     else st
                         | None \<Rightarrow> st);
                  listItemContent = trim (removePattern (lm_pattern listMatch) line)
              in st1\<lparr>blocks := blocks st1 @
                   [listBlock listItemContent (lm_type listMatch)
                      (if lm_type listMatch = Numbered
                       then Some (parseInt (indexOrOne (lm_index listMatch))) else None)]\<rparr>)
         | None \<Rightarrow>
             (let headingAnalysis = analyzeHeading trimmedLine lines index in
              if isHeading headingAnalysis then
                st\<lparr>blocks := pushCurrent st @
                      [headingBlock (headingText headingAnalysis) (hlevel headingAnalysis)],
                   currentBlock :=
                     (if remainingContent headingAnalysis \<noteq> []
                      then Some (mkBlock Paragraph (remainingContent headingAnalysis))
                      else None)\<rparr>
              else
                (case currentBlock st of
                   None \<Rightarrow> st\<lparr>currentBlock := Some (mkBlock Paragraph trimmedLine)\<rparr>
                 | Some b \<Rightarrow>
                     if btype b = Paragraph then
                       st\<lparr>currentBlock := Some (b\<lparr>content := content b @ '' '' @ trimmedLine\<rparr>)\<rparr>
                     else st\<lparr>blocks := blocks st @ [b],
                             currentBlock := Some (mkBlock Paragraph trimmedLine)\<rparr>))))"

text \<open>The state after the loop has run over the given (index, line) pairs.\<close>

definition runLines :: "string list \<Rightarrow> astate \<Rightarrow> (nat \<times> string) list \<Rightarrow> astate" where
  "runLines lines st ils = foldl (analyzeLine lines) st ils"

definition analyzeTextStructure :: "string \<Rightarrow> Block list" where
  "analyzeTextStructure text =
     (let lines = split newline text
      in pushCurrent (runLines lines initState (enumerate 0 lines)))"

section \<open>The renderer\<close>

text \<open>Decimal digits of a number, as a template literal prints an integer.\<close>

fun showNat :: "nat \<Rightarrow> string" where
  "showNat n = (if n < 10 then [char_of (48 + n)]
                else showNat (n div 10) @ [char_of (48 + n mod 10)])"

definition showInt :: "int \<Rightarrow> string" where
  "showInt i = (if i < 0 then ''-'' @ showNat (nat (- i)) else showNat (nat i))"

text \<open>The variables of \<open>blocksToMarkdown\<close> that the loop body updates.\<close>

record rstate =
  markdown :: string
  rListType :: "list_kind option"
  listStarted :: bool

definition initRender :: rstate where
  "initRender = \<lparr>markdown = [], rListType = None, listStarted = False\<rparr>"

text \<open>\<open>block.metadata?.level || 1\<close>: an absent level and the level 0 give 1.\<close>

definition levelOrOne :: "Block \<Rightarrow> nat" where
  "levelOrOne b = (case level b of None \<Rightarrow> 1 | Some l \<Rightarrow> if l = 0 then 1 else l)"

text \<open>The prefix of a list item: the index and a dot when the running list kind is
  numbered and the index is truthy (a number other than 0 and \<open>NaN\<close>), a dash otherwise.\<close>

definition listPrefix :: "list_kind option \<Rightarrow> Block \<Rightarrow> string" where
  "listPrefix lt b =
     (case listIndex b of
        Some (Num i) \<Rightarrow> if lt = Some Numbered \<and> i \<noteq> 0 then showInt i @ ''. '' else ''- ''
      | _ \<Rightarrow> ''- '')"

definition renderBlock :: "rstate \<Rightarrow> Block \<Rightarrow> rstate" where
  "renderBlock st b =
     (case btype b of
        Heading \<Rightarrow>
          st\<lparr>markdown := markdown st @ replicate (levelOrOne b) CHR ''#'' @ '' '' @ content b
                 @ [newline, newline]\<rparr>
      | Paragraph \<Rightarrow> st\<lparr>markdown := markdown st @ content b @ [newline, newline]\<rparr>
      | List \<Rightarrow>
          (let st1 = (if \<not> listStarted st \<or> rListType st \<noteq> listType b
                      then st\<lparr>rListType := Some (case listType b of Some k \<Rightarrow> k | None \<Rightarrow> Bullet),
                              listStarted := True\<rparr>
                      else st)
           in st1\<lparr>markdown := markdown st1 @ listPrefix (rListType st1) b @ content b
                    @ [newline]\<rparr>)
      | Code \<Rightarrow>
          st\<lparr>markdown := markdown st @ ''```'' @ [newline] @ content b @ ''```''
                 @ [newline, newline]\<rparr>
      | Quote \<Rightarrow> st\<lparr>markdown := markdown st @ ''> '' @ content b @ [newline, newline]\<rparr>)"

definition blocksToMarkdown :: "Block list \<Rightarrow> string" where
  "blocksToMarkdown bs = trim (markdown (foldl renderBlock initRender bs))"

definition transform :: "string \<Rightarrow> string" where
  "transform text = blocksToMarkdown (analyzeTextStructure text)"

section \<open>Validation\<close>

text \<open>\<^verbatim>\<open>/^#{1,6} [^\n]+/m\<close> tried at one position: one to six \<open>#\<close>, a space, and at least
  one character that is not a line feed.\<close>

definition headerAt :: "string \<Rightarrow> bool" where
  "headerAt s =
     (let n = length (takeWhile (\<lambda>c. c = CHR ''#'') s)
      in 1 \<le> n \<and> n \<le> 6 \<and>
         (case drop n s of a # b # _ \<Rightarrow> a = CHR '' '' \<and> b \<noteq> newline | _ \<Rightarrow> False))"

text \<open>The search of that pattern: with the flag \<open>m\<close>, \<open>^\<close> matches at the start of the
  text and after every line terminator.\<close>

fun searchHeader :: "bool \<Rightarrow> string \<Rightarrow> bool" where
  "searchHeader atStart [] = False"
| "searchHeader atStart (c # cs) =
     ((atStart \<and> headerAt (c # cs)) \<or> searchHeader (isLineTerminator c) cs)"

text \<open>The number of matches of \<^verbatim>\<open>/```/g\<close>: occurrences from left to right, not
  overlapping.\<close>

fun countFences :: "string \<Rightarrow> nat" where
  "countFences (a # b # c # r) =
     (if a = CHR ''`'' \<and> b = CHR ''`'' \<and> c = CHR ''`'' then Suc (countFences r)
      else countFences (b # c # r))"
| "countFences _ = 0"

definition countChar :: "char \<Rightarrow> string \<Rightarrow> nat" where
  "countChar d s = length (filter (\<lambda>c. c = d) s)"

definition validateMarkdown :: "string \<Rightarrow> bool" where
  "validateMarkdown md =
     (let hasValidHeaders = searchHeader True md;
          hasBalancedEmphasis = (countChar CHR ''*'' md mod 2 = 0);
          hasBalancedCodeBlocks = (countFences md mod 2 = 0)
      in hasValidHeaders \<and> hasBalancedEmphasis \<and> hasBalancedCodeBlocks)"

section \<open>The configuration-driven rewriter\<close>

datatype spacing = Single | Double

datatype emphasis = Asterisk | Underscore

datatype code_style = Indented | Fenced

text \<open>The type \<open>StructureConfig\<close>.  The four enumerated fields are closed types, as the
  source's union types are; \<open>headingDepth\<close> is any integer.\<close>

record StructureConfig =
  headingDepth :: int
  listStyle :: list_kind
  paragraphSpacing :: spacing
  emphasisStyle :: emphasis
  codeBlockStyle :: code_style

text \<open>The only exception the rewriter can raise: \<open>String.prototype.repeat\<close> throws a
  \<open>RangeError\<close> for a negative count.\<close>

datatype error = RangeError

definition repeat :: "char \<Rightarrow> int \<Rightarrow> error + string" where
  "repeat c n = (if n < 0 then Inl RangeError else Inr (replicate (nat n) c))"

text \<open>The tail \<^verbatim>\<open>[^.!?]*[:.\n]\<close> of the header pattern: a run of characters other than
  \<open>.\<close>, \<open>!\<close>, \<open>?\<close> that contains a colon or a line feed, or that is followed by a dot.\<close>

definition headerTail :: "string \<Rightarrow> bool" where
  "headerTail r =
     (let run = takeWhile (\<lambda>c. c \<notin> set ''.!?'') r
      in list_ex (\<lambda>c. c = CHR '':'' \<or> c = newline) run \<or>
         (case drop (length run) r of c # _ \<Rightarrow> c = CHR ''.'' | [] \<Rightarrow> False))"

text \<open>\<^verbatim>\<open>/^[A-Z][^.!?]*[:.\n]/\<close>\<close>

definition headerStart :: "string \<Rightarrow> bool" where
  "headerStart s = (case s of [] \<Rightarrow> False | u # r \<Rightarrow> isUpper u \<and> headerTail r)"

text \<open>The lookahead \<^verbatim>\<open>(?=\n[A-Z][^.!?]*[:.\n])\<close>.\<close>

definition sectionStart :: "string \<Rightarrow> bool" where
  "sectionStart s = (case s of [] \<Rightarrow> False | n # r \<Rightarrow> n = newline \<and> headerStart r)"

text \<open>\<open>text.split\<close> with that lookahead: the text is cut before every position other
  than the first where the lookahead matches.\<close>

fun cutSections :: "string \<Rightarrow> string list" where
  "cutSections [] = [[]]"
| "cutSections (c # cs) =
     (if sectionStart cs then [c] # cutSections cs
      else (case cutSections cs of w # ws \<Rightarrow> (c # w) # ws | [] \<Rightarrow> [[c]]))"

text \<open>One attempt of an emphasis pattern such as \<^verbatim>\<open>/__([^_]+)__/\<close> at the start of
  \<open>s\<close>: \<open>k\<close> delimiters \<open>d\<close>, a non-empty run without \<open>d\<close>, \<open>k\<close> delimiters.  The result
  is the captured run and the text after the match.\<close>

definition matchDelim :: "char \<Rightarrow> nat \<Rightarrow> string \<Rightarrow> (string \<times> string) option" where
  "matchDelim d k s =
     (if take k s = replicate k d then
        (let run = takeWhile (\<lambda>c. c \<noteq> d) (drop k s);
             after = drop (length run) (drop k s)
         in if run \<noteq> [] \<and> take k after = replicate k d then Some (run, drop k after)
            else None)
      else None)"

lemma matchDelim_shorter:
  assumes "matchDelim d k s = Some (run, rest)"
  shows "length rest < length s"
proof -
  from assms have run: "run = takeWhile (\<lambda>c. c \<noteq> d) (drop k s)" and ne: "run \<noteq> []"
    and rest: "rest = drop k (drop (length run) (drop k s))"
    by (auto simp: matchDelim_def Let_def split: if_splits)
  from ne run have "drop k s \<noteq> []" by auto
  then have b: "k < length s" by simp
  have a: "0 < length run" using ne by simp
  show ?thesis unfolding rest length_drop using a b by linarith
qed

text \<open>\<open>line.replace(re, rep)\<close> for a global emphasis pattern: every match, from left to
  right, becomes the captured run between two copies of \<open>rep\<close>.\<close>

function replaceDelim :: "char \<Rightarrow> nat \<Rightarrow> string \<Rightarrow> string \<Rightarrow> string" where
  "replaceDelim d k rep [] = []"
| "replaceDelim d k rep (c # cs) =
     (case matchDelim d k (c # cs) of
        Some (run, rest) \<Rightarrow> rep @ run @ rep @ replaceDelim d k rep rest
      | None \<Rightarrow> c # replaceDelim d k rep cs)"
  by pat_completeness auto
termination
  by (relation "measure (\<lambda>(d, k, rep, s). length s)") (auto dest: matchDelim_shorter)

text \<open>\<^verbatim>\<open>/^\d+\./\<close> as a test and as the prefix that \<open>replace\<close> removes.\<close>

definition numberMarker :: "string \<Rightarrow> string option" where
  "numberMarker line = do { r \<leftarrow> digits1 line; oneOf ''.'' r }"

definition removeNumber :: "string \<Rightarrow> string" where
  "removeNumber line = (case numberMarker line of Some r \<Rightarrow> r | None \<Rightarrow> line)"

text \<open>\<^verbatim>\<open>/^[-*\<bullet>]/\<close>, where the third member of the class is the code point U+2022,
  which lies outside the code units of the model.\<close>

definition bulletMarker :: "string \<Rightarrow> string option" where
  "bulletMarker line = oneOf ''-*'' line"

definition removeBullet :: "string \<Rightarrow> string" where
  "removeBullet line = (case bulletMarker line of Some r \<Rightarrow> r | None \<Rightarrow> line)"

text \<open>\<^verbatim>\<open>/^( {4}|\t)/\<close> as a test and as the prefix that \<open>replace\<close> removes.\<close>

definition indentMarker :: "string \<Rightarrow> string option" where
  "indentMarker line =
     (if startsWith line ''    '' then Some (drop 4 line)
      else if startsWith line [CHR 0x09] then Some (drop 1 line)
      else None)"

text \<open>The emphasis step: two global replacements, in the source's order.\<close>

definition convertEmphasis :: "emphasis \<Rightarrow> string \<Rightarrow> string" where
  "convertEmphasis style line =
     (if style = Asterisk
      then replaceDelim CHR ''_'' 2 ''**'' (replaceDelim CHR ''_'' 1 ''*'' line)
      else replaceDelim CHR ''*'' 2 ''__'' (replaceDelim CHR ''*'' 1 ''_'' line))"

text \<open>The variables that the loop over the lines of a section updates.\<close>

record pstate =
  pmarkdown :: string
  currentParagraph :: string

text \<open>The body of the inner \<open>forEach\<close>.\<close>

definition rewriteLine :: "StructureConfig \<Rightarrow> pstate \<Rightarrow> string \<Rightarrow> pstate" where
  "rewriteLine config st line0 =
     (let line1 = trim line0;
          line2 =
            (if numberMarker line1 \<noteq> None then
               (if listStyle config = Bullet then ''* '' @ trim (removeNumber line1) else line1)
             else if bulletMarker line1 \<noteq> None then
               (if listStyle config = Numbered then
                  (let listNumber =
                         length (filter (\<lambda>l. numberMarker l \<noteq> None)
                                   (split newline (pmarkdown st))) + 1
                   in showNat listNumber @ ''. '' @ trim (removeBullet line1))
                else line1)
             else line1);
          line3 = convertEmphasis (emphasisStyle config) line2;
          md = pmarkdown st;
          fence = ''```'' @ [newline];
          md1 =
            (if indentMarker line3 \<noteq> None then
               (if codeBlockStyle config = Fenced \<and> \<not> endsWith md fence then md @ fence else md)
             else if endsWith md fence \<and> codeBlockStyle config = Fenced
             then md @ fence @ [newline]
             else md);
          line4 =
            (case indentMarker line3 of
               Some r \<Rightarrow> if codeBlockStyle config = Fenced then r else line3
             | None \<Rightarrow> line3)
      in if line4 = [] then
           (if currentParagraph st \<noteq> [] then
              \<lparr>pmarkdown = md1 @ currentParagraph st @ [newline]
                   @ (if paragraphSpacing config = Double then [newline] else []),
               currentParagraph = []\<rparr>
            else \<lparr>pmarkdown = md1, currentParagraph = currentParagraph st\<rparr>)
         else
           \<lparr>pmarkdown = md1,
            currentParagraph =
              currentParagraph st @ (if currentParagraph st \<noteq> [] then '' '' else []) @ line4\<rparr>)"

text \<open>The rest of the body of the outer \<open>forEach\<close>, after the header: the loop over the
  lines and the final paragraph.\<close>

definition rewriteLines :: "StructureConfig \<Rightarrow> string \<Rightarrow> string list \<Rightarrow> string" where
  "rewriteLines config md ls =
     (let st = foldl (rewriteLine config) \<lparr>pmarkdown = md, currentParagraph = []\<rparr> ls
      in if currentParagraph st \<noteq> []
         then pmarkdown st @ currentParagraph st @ [newline, newline]
         else pmarkdown st)"

text \<open>The body of the outer \<open>forEach\<close>: the new value of \<open>markdown\<close>, or the exception.\<close>

definition processSection :: "StructureConfig \<Rightarrow> string \<Rightarrow> string \<Rightarrow> error + string" where
  "processSection config md section =
     (case split newline (trim section) of
        [] \<Rightarrow> Inr md
      | currentLine # rest \<Rightarrow>
          if headerStart currentLine then
            (case repeat CHR ''#'' (min (headingDepth config) 3) of
               Inl e \<Rightarrow> Inl e
             | Inr hashes \<Rightarrow>
                 Inr (rewriteLines config
                        (md @ hashes @ '' '' @ trim currentLine @ [newline, newline]) rest))
          else Inr (rewriteLines config md (currentLine # rest)))"

fun processSections :: "StructureConfig \<Rightarrow> string \<Rightarrow> string list \<Rightarrow> error + string" where
  "processSections config md [] = Inr md"
| "processSections config md (s # ss) =
     (case processSection config md s of
        Inl e \<Rightarrow> Inl e
      | Inr md' \<Rightarrow> processSections config md' ss)"

definition processDocument :: "string \<Rightarrow> StructureConfig \<Rightarrow> error + string" where
  "processDocument text config =
     (case processSections config [] (cutSections text) of
        Inl e \<Rightarrow> Inl e
      | Inr md \<Rightarrow> Inr (trim md))"

section \<open>Definitions used to state the properties\<close>

text \<open>The kinds an open block may have.\<close>

definition openKinds :: "astate \<Rightarrow> bool" where
  "openKinds st = (case currentBlock st of None \<Rightarrow> True
     | Some b \<Rightarrow> btype b = Paragraph \<or> btype b = Quote)"

text \<open>The words the specification counts for the title-case fallback: a capitalized word
  (first letter upper case, the rest lower case) or a word all in upper case; and the
  two counts whose quotient is compared with 60 percent.\<close>

definition capitalizedWord :: "string \<Rightarrow> bool" where
  "capitalizedWord w = (case w of [] \<Rightarrow> False | a # r \<Rightarrow> isUpper a \<and> list_all isLower r)"

definition allUppercaseWord :: "string \<Rightarrow> bool" where
  "allUppercaseWord w = (w \<noteq> [] \<and> list_all isUpper w)"

definition capitalizedCount :: "string \<Rightarrow> nat" where
  "capitalizedCount line =
     length (filter (\<lambda>w. capitalizedWord w \<or> allUppercaseWord w) (split CHR '' '' line))"

definition wordCount :: "string \<Rightarrow> nat" where
  "wordCount line = length (split CHR '' '' line)"

text \<open>The line after position \<open>index\<close> is a Setext underline.\<close>

definition setextNext :: "string list \<Rightarrow> nat \<Rightarrow> bool" where
  "setextNext lines index = (index + 1 < length lines \<and>
     (underline CHR ''='' (lines ! (index + 1)) \<or> underline CHR ''-'' (lines ! (index + 1))))"

text \<open>Two lines of 59 and of 61 characters, eleven capitalized words each.\<close>

definition line59 :: string where
  "line59 = ''Release Notes For The Second Quarter Of The Fiscal Year Now''"

definition line61 :: string where
  "line61 = ''Release Notes For The Second Quarter Of The Fiscal Year Today''"

text \<open>A word that the specification's title-case fallback counts.\<close>

definition specWord :: "string \<Rightarrow> bool" where
  "specWord w = (capitalizedWord w \<or> allUppercaseWord w)"


text \<open>The state after a line of plain text.\<close>

definition plainStep :: "astate \<Rightarrow> string \<Rightarrow> astate" where
  "plainStep st t =
     (case currentBlock st of
        None \<Rightarrow> st\<lparr>currentBlock := Some (mkBlock Paragraph t)\<rparr>
      | Some b \<Rightarrow>
          if btype b = Paragraph
          then st\<lparr>currentBlock := Some (b\<lparr>content := content b @ '' '' @ t\<rparr>)\<rparr>
          else st\<lparr>blocks := blocks st @ [b], currentBlock := Some (mkBlock Paragraph t)\<rparr>)"


text \<open>Upper and lower case in the whole alphabet of the model (Latin-1): the letters
  that the words "uppercase" and "lowercase" cover when they are not cut to the ranges
  \<open>A-Z\<close> and \<open>a-z\<close> of the source's character classes; and the count of the words
  capitalized in that sense.  The line of 59 characters followed by two spaces, the
  same line after two spaces, and a line of 59 characters made of twelve words that
  begin with a capital E with an acute accent.\<close>

definition latinUpper :: "char \<Rightarrow> bool" where
  "latinUpper c = (isUpper c \<or> (192 \<le> code c \<and> code c \<le> 222 \<and> code c \<noteq> 215))"

definition latinLower :: "char \<Rightarrow> bool" where
  "latinLower c = (isLower c \<or> (223 \<le> code c \<and> code c \<le> 255 \<and> code c \<noteq> 247))"

definition latinCapitalizedCount :: "string \<Rightarrow> nat" where
  "latinCapitalizedCount line =
     length (filter (\<lambda>w. case w of [] \<Rightarrow> False | a # r \<Rightarrow> latinUpper a \<and> list_all latinLower r)
               (split CHR '' '' line))"

definition paddedLine :: string where
  "paddedLine = line59 @ ''  ''"

definition indentedLine :: string where
  "indentedLine = ''  '' @ line59"

definition accentLine :: string where
  "accentLine = concat (replicate 11 (CHR 0xC9 # ''lan '')) @ CHR 0xC9 # ''lan''"


text \<open>A configuration as the user interface creates it, with the given heading depth
  and emphasis style.\<close>

definition uiConfig :: "int \<Rightarrow> emphasis \<Rightarrow> StructureConfig" where
  "uiConfig d e = \<lparr>headingDepth = d, listStyle = Bullet, paragraphSpacing = Single,
     emphasisStyle = e, codeBlockStyle = Fenced\<rparr>"

text \<open>A text with a paragraph, a heading, a list item and a fenced code block.\<close>

definition sampleText :: string where
  "sampleText = ''para'' @ [newline] @ ''# T'' @ [newline] @ ''- a'' @ [newline] @ ''```''
     @ [newline] @ ''x'' @ [newline] @ ''```''"


text \<open>A heading followed by a bullet item that contains one more asterisk.\<close>

definition bulletText :: string where
  "bulletText = ''# Title'' @ [newline] @ ''* item *''"



text \<open>Canonical blocks: the blocks that the renderer writes in a form the analyzer
  reads back as the same block.  A block without metadata; a line that the analyzer
  classifies as plain text when it stands alone; a code content made of lines that end
  in a line feed and are not fences.\<close>

definition noMeta :: "Block \<Rightarrow> bool" where
  "noMeta b = (level b = None \<and> listType b = None \<and> listIndex b = None)"

definition plainLine :: "string \<Rightarrow> bool" where
  "plainLine c = (trim c = c \<and> c \<noteq> [] \<and> newline \<notin> set c \<and>
     \<not> startsWith c ''```'' \<and> \<not> startsWith c ''>'' \<and>
     detectListType c = None \<and> \<not> isHeading (analyzeHeading c [c] 0))"

definition codeOk :: "string \<Rightarrow> bool" where
  "codeOk c = (last (split newline c) = [] \<and>
     list_all (\<lambda>l. \<not> startsWith (trim l) ''```'') (split newline c))"

definition canonical :: "Block \<Rightarrow> bool" where
  "canonical b =
     (case btype b of
        Heading \<Rightarrow>
          (case level b of None \<Rightarrow> False | Some n \<Rightarrow> 1 \<le> n \<and> n \<le> 6) \<and>
          trim (content b) = content b \<and> content b \<noteq> [] \<and>
          list_all (\<lambda>c. \<not> isLineTerminator c) (content b) \<and>
          listType b = None \<and> listIndex b = None
      | Paragraph \<Rightarrow> plainLine (content b) \<and> noMeta b
      | List \<Rightarrow>
          trim (content b) = content b \<and> newline \<notin> set (content b) \<and> level b = None \<and>
          (listType b = Some Bullet \<and> listIndex b = None \<or>
           listType b = Some Numbered \<and> listIndex b = Some (Num 1))
      | Code \<Rightarrow> codeOk (content b) \<and> noMeta b
      | Quote \<Rightarrow>
          newline \<notin> set (content b) \<and> (content b = [] \<or> \<not> isSpace (last (content b))) \<and>
          noMeta b)"

text \<open>What every block that the analyzer produces satisfies; the further conditions
  under which a produced block is canonical; and the invariant of the analyzer's loop.\<close>

definition produced :: "Block \<Rightarrow> bool" where
  "produced b =
     (case btype b of
        Heading \<Rightarrow>
          (case level b of None \<Rightarrow> False | Some n \<Rightarrow> 1 \<le> n \<and> n \<le> 6) \<and>
          trim (content b) = content b \<and> content b \<noteq> [] \<and>
          listType b = None \<and> listIndex b = None
      | Paragraph \<Rightarrow>
          noMeta b \<and> trim (content b) = content b \<and> content b \<noteq> [] \<and>
          newline \<notin> set (content b) \<and>
          \<not> startsWith (content b) ''```'' \<and> \<not> startsWith (content b) ''>''
      | List \<Rightarrow>
          trim (content b) = content b \<and> newline \<notin> set (content b) \<and> level b = None \<and>
          (listType b = Some Bullet \<and> listIndex b = None \<or>
           listType b = Some Numbered \<and> listIndex b = Some (Num 1))
      | Code \<Rightarrow> codeOk (content b) \<and> noMeta b
      | Quote \<Rightarrow>
          noMeta b \<and>
          (newline \<in> set (content b) \<or> content b = [] \<or> \<not> isSpace (last (content b))))"

definition stable :: "Block \<Rightarrow> bool" where
  "stable b =
     (case btype b of
        Heading \<Rightarrow> list_all (\<lambda>c. \<not> isLineTerminator c) (content b)
      | Paragraph \<Rightarrow>
          detectListType (content b) = None \<and>
          \<not> isHeading (analyzeHeading (content b) [content b] 0)
      | List \<Rightarrow> True
      | Code \<Rightarrow> True
      | Quote \<Rightarrow> newline \<notin> set (content b))"

definition stateOk :: "astate \<Rightarrow> bool" where
  "stateOk st =
     (list_all produced (blocks st) \<and>
      (case currentBlock st of None \<Rightarrow> True
       | Some b \<Rightarrow> produced b \<and> (btype b = Paragraph \<or> btype b = Quote)) \<and>
      codeOk (codeBlockContent st))"


text \<open>The loop of \<open>analyzeTextStructure\<close> as a recursion over the lines: each line is
  processed with the line after it, the only other line its classification reads.\<close>

fun runA :: "astate \<Rightarrow> string list \<Rightarrow> astate" where
  "runA st [] = st"
| "runA st (l # rest) = runA (analyzeLine (l # take 1 rest) st (0, l)) rest"

text \<open>Lines, each followed by a line feed; and the lines a block is rendered to.\<close>

definition unlines :: "string list \<Rightarrow> string" where
  "unlines ls = concat (map (\<lambda>l. l @ [newline]) ls)"

definition blockLines :: "Block \<Rightarrow> string list" where
  "blockLines b =
     (case btype b of
        Heading \<Rightarrow> [replicate (levelOrOne b) CHR ''#'' @ '' '' @ content b, []]
      | Paragraph \<Rightarrow> [content b, []]
      | List \<Rightarrow> [listPrefix (listType b) b @ content b]
      | Code \<Rightarrow> ''```'' # butlast (split newline (content b)) @ [''```'', []]
      | Quote \<Rightarrow> [''> '' @ content b, []])"

text \<open>A block whose rendering does not end in white space before its line feed: every
  block but a list item or a quote with the empty text.  A list of lines whose first
  and last line begin and end with a character that is not white space.\<close>

definition tight :: "Block \<Rightarrow> bool" where
  "tight b = (content b \<noteq> [] \<or> (btype b \<noteq> List \<and> btype b \<noteq> Quote))"

definition solid :: "string list \<Rightarrow> bool" where
  "solid L = (L \<noteq> [] \<and> hd L \<noteq> [] \<and> \<not> isSpace (hd (hd L)) \<and>
              last L \<noteq> [] \<and> \<not> isSpace (last (last L)))"

text \<open>Two quote lines; and a text with one block of every kind.\<close>

definition quoteText :: string where
  "quoteText = ''> a'' @ [newline] @ ''> b''"

text \<open>A paragraph of two lines that reads as a list item once it is joined; one that
  reads as a heading once it is joined; a title-case line with a carriage return in
  it; and a text with an empty quote and an empty list item.\<close>

definition starText :: string where
  "starText = ''*'' @ [newline] @ ''foo''"

definition rankText :: string where
  "rankText = ''rank by'' @ [newline] @ ''x''"

definition returnText :: string where
  "returnText = ''Aa'' @ [CHR 0x0D] @ ''b''"

definition sparseText :: string where
  "sparseText = ''> '' @ [newline] @ ''some text'' @ [newline] @ ''- '' @ [newline] @ ''1. ''"

definition mixedText :: string where
  "mixedText = ''# Title'' @ [newline] @ ''some text'' @ [newline] @ ''more text'' @ [newline]
     @ [newline] @ ''* a'' @ [newline] @ ''2) b'' @ [newline] @ ''> q'' @ [newline]
     @ ''```'' @ [newline] @ '' code'' @ [newline] @ ''```'' @ [newline] @ ''Hello World''"

text \<open>The state of the assembler after the first \<open>j\<close> lines of a text.\<close>

definition stateAfter :: "string \<Rightarrow> nat \<Rightarrow> astate" where
  "stateAfter text j =
     (let lines = split newline text in runLines lines initState (take j (enumerate 0 lines)))"

text \<open>Lines that the analyzer and the renderer pass on with all their asterisks and
  fence markers.  A fence line, which is replaced by a bare fence marker, has one fence
  marker and no asterisk.  A line inside a code block is copied.  Outside a code block,
  a list marker, which is replaced by a dash or a number, is not an asterisk; and an
  ATX heading line, whose text the heading pattern reads up to the first line
  terminator, contains none.  A text is lossless when all its lines are of this kind
  and its last fence is closed.\<close>

definition starBullet :: "string \<Rightarrow> bool" where
  "starBullet line =
     (case detectListType line of Some m \<Rightarrow> lm_index m = Some ''*'' | None \<Rightarrow> False)"

definition keptLine :: "bool \<Rightarrow> string \<Rightarrow> bool" where
  "keptLine inCode line =
     (if startsWith (trim line) ''```''
      then countFences line = 1 \<and> countChar CHR ''*'' line = 0
      else inCode \<or>
           (\<not> starBullet line \<and>
            (atxMatch (trim line) = None \<or>
             list_all (\<lambda>c. \<not> isLineTerminator c) (trim line))))"

definition keptFlags :: "string \<Rightarrow> bool list" where
  "keptFlags text =
     (let lines = split newline text
      in map (\<lambda>j. keptLine (inCodeBlock (stateAfter text j)) (lines ! j)) [0..<length lines])"

definition lossless :: "string \<Rightarrow> bool" where
  "lossless text =
     (list_all (\<lambda>k. k) (keptFlags text) \<and>
      \<not> inCodeBlock (stateAfter text (length (split newline text))))"

text \<open>The asterisks and the fence markers of a block as it is rendered, and of the
  state of the assembler: those of its blocks, of the open block and of the code
  collected so far, and the fence that opened the code block.  The collected code is
  empty or ends with a line feed, and it is empty outside a code block.\<close>

definition blockStars :: "Block \<Rightarrow> nat" where
  "blockStars b = countChar CHR ''*'' (content b)"

definition blockFences :: "Block \<Rightarrow> nat" where
  "blockFences b = countFences (content b) + (if btype b = Code then 2 else 0)"

definition stateStars :: "astate \<Rightarrow> nat" where
  "stateStars st = sum_list (map blockStars (pushCurrent st)) +
     countChar CHR ''*'' (codeBlockContent st)"

definition stateFences :: "astate \<Rightarrow> nat" where
  "stateFences st = sum_list (map blockFences (pushCurrent st)) +
     countFences (codeBlockContent st) + (if inCodeBlock st then 1 else 0)"

definition codeTail :: "astate \<Rightarrow> bool" where
  "codeTail st = ((codeBlockContent st = [] \<or> last (codeBlockContent st) = newline) \<and>
     (inCodeBlock st \<or> codeBlockContent st = []))"

text \<open>Texts with an ATX heading line and an even number of asterisks and of fence
  markers: a fence line with two fence markers; a fence line with an asterisk; a fence
  that is never closed; a heading line with a carriage return; a heading line inside a
  code block, written with a tab; and a text with a block of every kind, a plus sign as
  list marker and fence markers inside the code.\<close>

definition fenceText :: string where
  "fenceText = ''# T'' @ [newline] @ ''``````'' @ [newline] @ ''x ``` y'' @ [newline] @ ''```''"

definition starFenceText :: string where
  "starFenceText = ''# T'' @ [newline] @ ''*a'' @ [newline] @ ''```*'' @ [newline] @ ''```''"

definition openFenceText :: string where
  "openFenceText = ''# T'' @ [newline] @ ''a ``` b'' @ [newline] @ ''```'' @ [newline] @ ''x''"

definition returnHeadingText :: string where
  "returnHeadingText = ''# a'' @ [CHR 0x0D] @ ''*b'' @ [newline] @ ''*c''"

definition codeHeadingText :: string where
  "codeHeadingText = ''```'' @ [newline] @ ''#'' @ [CHR 0x09] @ ''T'' @ [newline] @ ''```''"

definition plusText :: string where
  "plusText = ''intro *a*'' @ [newline] @ ''##  Title *'' @ [newline] @ ''+ item *'' @ [newline]
     @ ''``` js'' @ [newline] @ ''x * y * ``` z ```'' @ [newline] @ ''```'' @ [newline] @ ''> q''"

section \<open>The open block of the assembler\<close>

lemma openKinds_init: "openKinds initState"
  by (simp add: openKinds_def initState_def)

lemma analyzeLine_openKinds:
  assumes "openKinds st"
  shows "openKinds (analyzeLine lines st il)"
  using assms unfolding analyzeLine_def openKinds_def Let_def mkBlock_def
  by (auto split: option.splits if_splits list.splits)

lemma analyzeLine_appends:
  "\<exists>new. blocks (analyzeLine lines st il) = blocks st @ new"
  unfolding analyzeLine_def Let_def pushCurrent_def
  by (auto split: option.splits if_splits list.splits)

lemma runLines_Nil: "runLines lines st [] = st"
  by (simp add: runLines_def)

lemma runLines_snoc:
  "runLines lines st (ils @ [il]) = analyzeLine lines (runLines lines st ils) il"
  by (simp add: runLines_def)

lemma runLines_openKinds: "openKinds st \<Longrightarrow> openKinds (runLines lines st ils)"
  by (induction ils rule: rev_induct) (simp_all add: runLines_Nil runLines_snoc analyzeLine_openKinds)

text \<open>The three kinds of line that complete a heading, list or code block.\<close>

lemma fence_close_blocks:
  assumes "startsWith (trim line) ''```''" and "inCodeBlock st"
  shows "analyzeLine lines st (i, line) =
     st\<lparr>inCodeBlock := False, blocks := blocks st @ [mkBlock Code (codeBlockContent st)],
        codeBlockContent := []\<rparr>"
  using assms by (simp add: analyzeLine_def)

lemma list_line_blocks:
  assumes "openKinds st" and "\<not> startsWith (trim line) ''```''" and "\<not> inCodeBlock st"
    and "trim line \<noteq> []" and "\<not> startsWith (trim line) ''>''"
    and "detectListType line = Some m"
  shows "analyzeLine lines st (i, line) =
     st\<lparr>blocks := pushCurrent st @
          [listBlock (trim (removePattern (lm_pattern m) line)) (lm_type m)
             (if lm_type m = Numbered then Some (parseInt (indexOrOne (lm_index m))) else None)],
        currentBlock := None\<rparr>"
  using assms
  by (cases "currentBlock st")
     (auto simp: analyzeLine_def Let_def openKinds_def pushCurrent_def)

lemma heading_line_blocks:
  assumes "\<not> startsWith (trim line) ''```''" and "\<not> inCodeBlock st"
    and "trim line \<noteq> []" and "\<not> startsWith (trim line) ''>''"
    and "detectListType line = None" and "isHeading (analyzeHeading (trim line) lines i)"
  shows "analyzeLine lines st (i, line) =
     st\<lparr>blocks := pushCurrent st @
          [headingBlock (headingText (analyzeHeading (trim line) lines i))
             (hlevel (analyzeHeading (trim line) lines i))],
        currentBlock := None\<rparr>"
proof -
  have "remainingContent (analyzeHeading (trim line) lines i) = []"
    using assms(6) by (auto simp: analyzeHeading_def split: option.splits if_splits)
  then show ?thesis using assms by (simp add: analyzeLine_def Let_def)
qed

text \<open>
  Claim C10.  After the loop of \<open>analyzeTextStructure\<close> has processed any number \<open>n\<close> of
  the lines of any text, the open block, when there is one, is a paragraph or a quote.
  In that state, whatever line comes next: a fence line in code mode appends the code
  block with the accumulated content; a list line appends the open block, if any, and
  then its list block; a heading line appends the open block, if any, and then its
  heading block; and the last two leave no block open.  So a heading, list or code
  block is appended on the line that completes it and is never the open block.
\<close>

theorem open_block_is_paragraph_or_quote:
  "(let lines = split newline text;
        st = runLines lines initState (take n (enumerate 0 lines))
    in (\<forall>b. currentBlock st = Some b \<longrightarrow> btype b = Paragraph \<or> btype b = Quote) \<and>
       (\<forall>i line.
          (startsWith (trim line) ''```'' \<and> inCodeBlock st \<longrightarrow>
             analyzeLine lines st (i, line) =
               st\<lparr>inCodeBlock := False,
                  blocks := blocks st @ [mkBlock Code (codeBlockContent st)],
                  codeBlockContent := []\<rparr>) \<and>
          (\<not> startsWith (trim line) ''```'' \<and> \<not> inCodeBlock st \<and> trim line \<noteq> [] \<and>
           \<not> startsWith (trim line) ''>'' \<longrightarrow>
             (\<forall>m. detectListType line = Some m \<longrightarrow>
                analyzeLine lines st (i, line) =
                  st\<lparr>blocks := pushCurrent st @
                       [listBlock (trim (removePattern (lm_pattern m) line)) (lm_type m)
                          (if lm_type m = Numbered
                           then Some (parseInt (indexOrOne (lm_index m))) else None)],
                     currentBlock := None\<rparr>) \<and>
             (detectListType line = None \<and> isHeading (analyzeHeading (trim line) lines i) \<longrightarrow>
                analyzeLine lines st (i, line) =
                  st\<lparr>blocks := pushCurrent st @
                       [headingBlock (headingText (analyzeHeading (trim line) lines i))
                          (hlevel (analyzeHeading (trim line) lines i))],
                     currentBlock := None\<rparr>))))"
proof -
  define lines where "lines = split newline text"
  define st where "st = runLines lines initState (take n (enumerate 0 lines))"
  have ok: "openKinds st"
    unfolding st_def by (rule runLines_openKinds) (rule openKinds_init)
  have open_kinds: "\<forall>b. currentBlock st = Some b \<longrightarrow> btype b = Paragraph \<or> btype b = Quote"
    using ok by (auto simp: openKinds_def)
  have steps: "\<forall>i line.
          (startsWith (trim line) ''```'' \<and> inCodeBlock st \<longrightarrow>
             analyzeLine lines st (i, line) =
               st\<lparr>inCodeBlock := False,
                  blocks := blocks st @ [mkBlock Code (codeBlockContent st)],
                  codeBlockContent := []\<rparr>) \<and>
          (\<not> startsWith (trim line) ''```'' \<and> \<not> inCodeBlock st \<and> trim line \<noteq> [] \<and>
           \<not> startsWith (trim line) ''>'' \<longrightarrow>
             (\<forall>m. detectListType line = Some m \<longrightarrow>
                analyzeLine lines st (i, line) =
                  st\<lparr>blocks := pushCurrent st @
                       [listBlock (trim (removePattern (lm_pattern m) line)) (lm_type m)
                          (if lm_type m = Numbered
                           then Some (parseInt (indexOrOne (lm_index m))) else None)],
                     currentBlock := None\<rparr>) \<and>
             (detectListType line = None \<and> isHeading (analyzeHeading (trim line) lines i) \<longrightarrow>
                analyzeLine lines st (i, line) =
                  st\<lparr>blocks := pushCurrent st @
                       [headingBlock (headingText (analyzeHeading (trim line) lines i))
                          (hlevel (analyzeHeading (trim line) lines i))],
                     currentBlock := None\<rparr>))"
    using fence_close_blocks[of _ st lines] list_line_blocks[OF ok, of _ _ lines]
      heading_line_blocks[of _ st lines]
    by blast
  from open_kinds steps show ?thesis
    unfolding Let_def lines_def[symmetric] st_def[symmetric] by (rule conjI)
qed

theorem open_block_is_paragraph_or_quote_witness:
  "currentBlock (runLines (split newline sampleText) initState
      (take 1 (enumerate 0 (split newline sampleText)))) = Some (mkBlock Paragraph ''para'') \<and>
   blocks (analyzeLine (split newline sampleText)
      (runLines (split newline sampleText) initState
         (take 1 (enumerate 0 (split newline sampleText)))) (1, ''# T'')) =
     [mkBlock Paragraph ''para'', headingBlock ''T'' (Some 1)] \<and>
   blocks (analyzeLine (split newline sampleText)
      (runLines (split newline sampleText) initState
         (take 2 (enumerate 0 (split newline sampleText)))) (2, ''- a'')) =
     [mkBlock Paragraph ''para'', headingBlock ''T'' (Some 1), listBlock ''a'' Bullet None] \<and>
   blocks (analyzeLine (split newline sampleText)
      (runLines (split newline sampleText) initState
         (take 5 (enumerate 0 (split newline sampleText)))) (5, ''```'')) =
     [mkBlock Paragraph ''para'', headingBlock ''T'' (Some 1), listBlock ''a'' Bullet None,
      mkBlock Code (''x'' @ [newline])]"
proof -
  define L where "L = split newline sampleText"
  define s1 where "s1 = runLines L initState (take 1 (enumerate 0 L))"
  define s2 where "s2 = runLines L initState (take 2 (enumerate 0 L))"
  define s5 where "s5 = runLines L initState (take 5 (enumerate 0 L))"
  note t1 = open_block_is_paragraph_or_quote[of sampleText 1, unfolded Let_def,
      folded L_def, folded s1_def]
  note t2 = open_block_is_paragraph_or_quote[of sampleText 2, unfolded Let_def,
      folded L_def, folded s2_def]
  note t5 = open_block_is_paragraph_or_quote[of sampleText 5, unfolded Let_def,
      folded L_def, folded s5_def]
  have c1: "currentBlock s1 = Some (mkBlock Paragraph ''para'')"
    unfolding s1_def L_def by code_simp
  have h1: "\<not> startsWith (trim ''# T'') ''```'' \<and> \<not> inCodeBlock s1 \<and> trim ''# T'' \<noteq> [] \<and>
      \<not> startsWith (trim ''# T'') ''>'' \<and> detectListType ''# T'' = None \<and>
      isHeading (analyzeHeading (trim ''# T'') L 1)"
    unfolding s1_def L_def by code_simp
  have v1: "pushCurrent s1 @ [headingBlock (headingText (analyzeHeading (trim ''# T'') L 1))
      (hlevel (analyzeHeading (trim ''# T'') L 1))] =
      [mkBlock Paragraph ''para'', headingBlock ''T'' (Some 1)]"
    unfolding s1_def L_def by code_simp
  have e1: "blocks (analyzeLine L s1 (1, ''# T'')) =
      [mkBlock Paragraph ''para'', headingBlock ''T'' (Some 1)]"
    using t1 h1 v1 by simp
  have h2: "\<not> startsWith (trim ''- a'') ''```'' \<and> \<not> inCodeBlock s2 \<and> trim ''- a'' \<noteq> [] \<and>
      \<not> startsWith (trim ''- a'') ''>'' \<and>
      detectListType ''- a'' = Some \<lparr>lm_type = Bullet, lm_pattern = BulletPat, lm_index = Some ''-''\<rparr>"
    unfolding s2_def L_def by code_simp
  have v2: "pushCurrent s2 @ [listBlock (trim (removePattern BulletPat ''- a'')) Bullet None] =
      [mkBlock Paragraph ''para'', headingBlock ''T'' (Some 1), listBlock ''a'' Bullet None]"
    unfolding s2_def L_def by code_simp
  have e2: "blocks (analyzeLine L s2 (2, ''- a'')) =
      [mkBlock Paragraph ''para'', headingBlock ''T'' (Some 1), listBlock ''a'' Bullet None]"
    using t2 h2 v2 by simp
  have h5: "startsWith (trim ''```'') ''```'' \<and> inCodeBlock s5"
    unfolding s5_def L_def by code_simp
  have v5: "blocks s5 @ [mkBlock Code (codeBlockContent s5)] =
      [mkBlock Paragraph ''para'', headingBlock ''T'' (Some 1), listBlock ''a'' Bullet None,
       mkBlock Code (''x'' @ [newline])]"
    unfolding s5_def L_def by code_simp
  have e5: "blocks (analyzeLine L s5 (5, ''```'')) =
      [mkBlock Paragraph ''para'', headingBlock ''T'' (Some 1), listBlock ''a'' Bullet None,
       mkBlock Code (''x'' @ [newline])]"
    using t5 h5 v5 by simp
  from c1 e1 e2 e5 show ?thesis
    unfolding s1_def s2_def s5_def L_def by simp
qed

section \<open>The kind of a list item\<close>

lemma detectLoop_kind:
  "detectLoop ps line = Some m \<Longrightarrow> (lm_type m = Numbered) = digitMarker line"
  by (induction ps) (auto split: option.splits if_splits)

lemma detectLoop_Some:
  "\<exists>p\<in>set ps. matchPattern p line \<noteq> None \<Longrightarrow> \<exists>m. detectLoop ps line = Some m"
  by (induction ps) (auto split: option.splits)

text \<open>
  Claim C7.  A line that one of the four list patterns matches is detected as a list
  item, and its kind is numbered exactly when the line matches the digit marker
  \<^verbatim>\<open>/^\s*\d+[\.)]/\<close>, bullet otherwise.  The lines \<open>a) item\<close> and \<open>(1) item\<close> are
  detected (by the lettered and the parenthesized pattern) and become bullet items.
\<close>

theorem list_kind_by_digit_marker:
  "((\<exists>p\<in>set listPatterns. matchPattern p line \<noteq> None) \<longrightarrow>
      (\<exists>m. detectListType line = Some m \<and>
           (lm_type m = Numbered) = digitMarker line \<and>
           (lm_type m = Bullet) = (\<not> digitMarker line))) \<and>
   detectListType ''a) item'' =
     Some \<lparr>lm_type = Bullet, lm_pattern = LetteredPat, lm_index = None\<rparr> \<and>
   detectListType ''(1) item'' =
     Some \<lparr>lm_type = Bullet, lm_pattern = ParenPat, lm_index = None\<rparr> \<and>
   analyzeTextStructure ''a) item'' = [listBlock ''item'' Bullet None] \<and>
   analyzeTextStructure ''(1) item'' = [listBlock ''item'' Bullet None]"
proof (intro conjI impI)
  assume "\<exists>p\<in>set listPatterns. matchPattern p line \<noteq> None"
  then obtain m where m: "detectListType line = Some m"
    unfolding detectListType_def using detectLoop_Some by blast
  then have k: "(lm_type m = Numbered) = digitMarker line"
    unfolding detectListType_def by (rule detectLoop_kind)
  have "(lm_type m = Bullet) = (\<not> digitMarker line)"
    using k by (cases "lm_type m") auto
  with m k show "\<exists>m. detectListType line = Some m \<and>
      (lm_type m = Numbered) = digitMarker line \<and>
      (lm_type m = Bullet) = (\<not> digitMarker line)"
    by blast
next
  show "detectListType ''a) item'' =
      Some \<lparr>lm_type = Bullet, lm_pattern = LetteredPat, lm_index = None\<rparr>"
    by code_simp
next
  show "detectListType ''(1) item'' =
      Some \<lparr>lm_type = Bullet, lm_pattern = ParenPat, lm_index = None\<rparr>"
    by code_simp
next
  show "analyzeTextStructure ''a) item'' = [listBlock ''item'' Bullet None]"
    by code_simp
next
  show "analyzeTextStructure ''(1) item'' = [listBlock ''item'' Bullet None]"
    by code_simp
qed

theorem list_kind_by_digit_marker_witness:
  "(\<exists>p\<in>set listPatterns. matchPattern p ''7) seven'' \<noteq> None) \<and>
   digitMarker ''7) seven'' \<and>
   (\<exists>m. detectListType ''7) seven'' = Some m \<and> lm_type m = Numbered)"
proof -
  have h: "\<exists>p\<in>set listPatterns. matchPattern p ''7) seven'' \<noteq> None"
    by code_simp
  have d: "digitMarker ''7) seven''"
    by code_simp
  from list_kind_by_digit_marker[of "''7) seven''"] h d show ?thesis
    by blast
qed

section \<open>Defects of the analyzer\<close>

text \<open>
  Claim C1.  A code fence that is never closed: the loop ends with \<open>inCodeBlock\<close> set and
  the accumulated lines in \<open>codeBlockContent\<close>, and only \<open>currentBlock\<close> is flushed after
  the loop.  The accumulated code is lost; the result has no code block.
\<close>

theorem unterminated_fence_is_dropped:
  "analyzeTextStructure (''intro'' @ [newline] @ ''```'' @ [newline] @ ''code line'') =
     [mkBlock Paragraph ''intro''] \<and>
   analyzeTextStructure (''```'' @ [newline] @ ''code line'') = []"
  by (rule conjI; code_simp)

lemma bullet_not_digit:
  "matchPattern BulletPat line = Some r \<Longrightarrow> \<not> digitMarker line"
  by (auto simp: digitMarker_def digits1_def isDigit_def code_def split: list.splits if_splits)

lemma numbered_has_no_capture:
  assumes "detectListType line = Some m" and "lm_type m = Numbered"
  shows "lm_index m = None"
proof (cases "matchPattern BulletPat line")
  case None
  with assms(1) show ?thesis
    by (auto simp: detectListType_def listPatterns_def Option.bind_eq_Some_conv
             split: option.splits if_splits)
next
  case (Some r)
  then have "\<not> digitMarker line" by (rule bullet_not_digit)
  with assms Some show ?thesis
    by (cases r) (auto simp: detectListType_def listPatterns_def)
qed

text \<open>Whatever its marker, a numbered line gets the index 1: only the bullet pattern has
  a capture group, so \<open>match[1]\<close> is undefined for every numbered line.\<close>

lemma numbered_index_is_one:
  assumes "detectListType line = Some m" and "lm_type m = Numbered"
  shows "parseInt (indexOrOne (lm_index m)) = Num 1"
proof -
  have "lm_index m = None" using assms by (rule numbered_has_no_capture)
  then show ?thesis by (simp add: indexOrOne_def) code_simp
qed

text \<open>
  Claim C2.  The two lines \<open>1. first\<close> and \<open>2. second\<close> give two numbered list items, and
  both have the index 1: the marker \<open>2.\<close> of the second line is not parsed.
\<close>

theorem numbered_items_both_get_index_one:
  "analyzeTextStructure (''1. first'' @ [newline] @ ''2. second'') =
     [listBlock ''first'' Numbered (Some (Num 1)),
      listBlock ''second'' Numbered (Some (Num 1))]"
  by code_simp

text \<open>
  Claim C3.  The line \<open>Title\<close> followed by the line \<open>===\<close>: the first line becomes a
  level-1 heading, and the underline is then processed as a line of its own and becomes
  a paragraph.
\<close>

theorem setext_underline_becomes_paragraph:
  "analyzeTextStructure (''Title'' @ [newline] @ ''==='') =
     [headingBlock ''Title'' (Some 1), mkBlock Paragraph ''==='']"
  by code_simp

section \<open>The rewriter\<close>

text \<open>
  Claim C6.  With the asterisk style the line \<open>__word__\<close> does not become \<open>**word**\<close>:
  the single-underscore replacement runs first, matches \<open>_word_\<close> inside the line and
  leaves nothing for the double-underscore replacement.  The underscore style has the
  mirror image of the same defect.
\<close>

theorem double_delimiter_rewritten_as_single:
  "processDocument ''__word__'' (uiConfig 2 Asterisk) = Inr ''_*word*_'' \<and>
   processDocument ''**word**'' (uiConfig 2 Underscore) = Inr ''*_word_*''"
  by (rule conjI; code_simp)

lemma selectors_after_depth_update:
  "listStyle (config\<lparr>headingDepth := d\<rparr>) = listStyle config"
  "emphasisStyle (config\<lparr>headingDepth := d\<rparr>) = emphasisStyle config"
  "codeBlockStyle (config\<lparr>headingDepth := d\<rparr>) = codeBlockStyle config"
  "paragraphSpacing (config\<lparr>headingDepth := d\<rparr>) = paragraphSpacing config"
  by simp_all

lemma rewriteLine_depth:
  "rewriteLine (config\<lparr>headingDepth := d\<rparr>) = rewriteLine config"
  by (intro ext) (simp only: rewriteLine_def selectors_after_depth_update)

lemma rewriteLines_depth:
  "rewriteLines (config\<lparr>headingDepth := d\<rparr>) = rewriteLines config"
  unfolding rewriteLines_def rewriteLine_depth by (rule refl)

lemma processSection_ok:
  assumes "0 \<le> headingDepth config"
  shows "\<exists>out. processSection config md s = Inr out"
proof -
  have "\<not> min (headingDepth config) 3 < 0" using assms by simp
  then show ?thesis
    unfolding processSection_def repeat_def by (simp split: list.splits)
qed

lemma processSections_ok:
  "0 \<le> headingDepth config \<Longrightarrow> \<exists>out. processSections config md ss = Inr out"
proof (induction ss arbitrary: md)
  case Nil
  then show ?case by simp
next
  case (Cons s ss)
  from processSection_ok[OF Cons.prems] obtain md' where "processSection config md s = Inr md'"
    by blast
  with Cons.IH[OF Cons.prems, of md'] show ?case by simp
qed

lemma processSection_clamp:
  "3 \<le> headingDepth config \<Longrightarrow>
     processSection config md s = processSection (config\<lparr>headingDepth := 3\<rparr>) md s"
  unfolding processSection_def rewriteLines_depth by (simp add: min_def split: list.splits)

lemma processSections_clamp:
  assumes "3 \<le> headingDepth config"
  shows "processSections config md ss = processSections (config\<lparr>headingDepth := 3\<rparr>) md ss"
proof (induction ss arbitrary: md)
  case Nil
  show ?case by simp
next
  case (Cons s ss)
  have "processSection config md s = processSection (config\<lparr>headingDepth := 3\<rparr>) md s"
    using assms by (rule processSection_clamp)
  with Cons.IH show ?case by (simp split: sum.splits)
qed

text \<open>
  Claim C5, as the code has it.  A heading depth of 7, outside the documented range, is
  accepted: the rewriter returns its output, with the header at level 3.
\<close>

theorem heading_depth_seven_is_accepted:
  "processDocument ''Summary:'' (uiConfig 7 Asterisk) = Inr ''### Summary:''"
  by code_simp

text \<open>
  Claim C5, amended.  The rewriter checks no configuration value.  For every text and
  every configuration whose heading depth is not negative, also one above 6, it returns
  an output string; and a heading depth of 3 or more gives the output of the depth 3.
  The other four fields are of closed types and have no values outside their
  enumerations.
\<close>

theorem rewriter_accepts_any_depth:
  "(0 \<le> headingDepth config \<longrightarrow> (\<exists>out. processDocument text config = Inr out)) \<and>
   (3 \<le> headingDepth config \<longrightarrow>
      processDocument text config = processDocument text (config\<lparr>headingDepth := 3\<rparr>))"
proof (intro conjI impI)
  assume "0 \<le> headingDepth config"
  then obtain md where "processSections config [] (cutSections text) = Inr md"
    using processSections_ok by blast
  then show "\<exists>out. processDocument text config = Inr out"
    by (simp add: processDocument_def)
next
  assume "3 \<le> headingDepth config"
  then have "processSections config [] (cutSections text) =
      processSections (config\<lparr>headingDepth := 3\<rparr>) [] (cutSections text)"
    by (rule processSections_clamp)
  then show "processDocument text config = processDocument text (config\<lparr>headingDepth := 3\<rparr>)"
    by (simp add: processDocument_def)
qed

theorem rewriter_accepts_any_depth_witness:
  "0 \<le> headingDepth (uiConfig 9 Underscore) \<and> 3 \<le> headingDepth (uiConfig 9 Underscore) \<and>
   (\<exists>out. processDocument ''Notes. *x*'' (uiConfig 9 Underscore) = Inr out) \<and>
   processDocument ''Notes. *x*'' (uiConfig 9 Underscore) =
     processDocument ''Notes. *x*'' ((uiConfig 9 Underscore)\<lparr>headingDepth := 3\<rparr>)"
proof -
  have h: "0 \<le> headingDepth (uiConfig 9 Underscore)" "3 \<le> headingDepth (uiConfig 9 Underscore)"
    by (simp_all add: uiConfig_def)
  from rewriter_accepts_any_depth[of "uiConfig 9 Underscore" "''Notes. *x*''"] h
  show ?thesis by blast
qed

section \<open>Validation of the rendered output\<close>

lemma trim_decomp: "skipWs s = trim s @ rev (takeWhile isSpace (rev (skipWs s)))"
  unfolding trim_def skipWs_def
  by (metis rev_append rev_rev_ident takeWhile_dropWhile_id)

lemma trim_Cons_skipWs: "trim s = c # r \<Longrightarrow> \<exists>r'. skipWs s = c # r'"
  using trim_decomp[of s] by (metis append_Cons)

lemma trim_last: "trim s \<noteq> [] \<Longrightarrow> \<not> isSpace (last (trim s))"
  unfolding trim_def by (simp add: last_rev hd_dropWhile)

lemma trim_hd: "trim s \<noteq> [] \<Longrightarrow> \<not> isSpace (hd (trim s))"
proof -
  assume ne: "trim s \<noteq> []"
  then have "skipWs s \<noteq> []" using trim_decomp[of s] by auto
  then have "\<not> isSpace (hd (skipWs s))" unfolding skipWs_def by (rule hd_dropWhile)
  moreover have "hd (skipWs s) = hd (trim s)"
    using ne trim_decomp[of s] by (metis hd_append2)
  ultimately show ?thesis by simp
qed

lemma lineTerminator_isSpace: "isLineTerminator c \<Longrightarrow> isSpace c"
  by (auto simp: isLineTerminator_def isSpace_def)

lemma atxMatch_facts:
  assumes "atxMatch (trim line) = Some (n, g)"
  shows "1 \<le> n \<and> n \<le> 6 \<and> g \<noteq> [] \<and> \<not> isSpace (hd g) \<and>
         (\<exists>r. trim line = CHR ''#'' # r)"
proof -
  define t where "t = trim line"
  define n' where "n' = length (takeWhile (\<lambda>c. c = CHR ''#'') t)"
  from assms have n: "n = n'" and bounds: "1 \<le> n'" "n' \<le> 6"
    and ex: "\<exists>r. ws1 (drop n' t) = Some r \<and> g = takeWhile (\<lambda>c. \<not> isLineTerminator c) r"
    unfolding atxMatch_def Let_def t_def[symmetric] n'_def[symmetric]
    by (auto split: if_splits simp: Option.bind_eq_Some_conv)
  from ex obtain r where r: "ws1 (drop n' t) = Some r"
    and g: "g = takeWhile (\<lambda>c. \<not> isLineTerminator c) r" by blast
  from r obtain c cs where d: "drop n' t = c # cs" and c: "isSpace c" and rs: "r = skipWs cs"
    unfolding ws1_def by (auto split: list.splits if_splits)
  have tne: "t \<noteq> []" using d by auto
  then have "\<not> isSpace (last t)" unfolding t_def by (rule trim_last)
  moreover have "last t = last (c # cs)" using d by (metis last_drop drop_eq_Nil2 list.discI not_le)
  ultimately have lc: "\<not> isSpace (last (c # cs))" by simp
  with c have csne: "cs \<noteq> []" by auto
  with lc have "\<not> isSpace (last cs)" by simp
  with csne have "\<exists>x\<in>set cs. \<not> isSpace x" using last_in_set by blast
  then have rne: "r \<noteq> []" unfolding rs skipWs_def by (simp add: dropWhile_eq_Nil_conv)
  then have hr: "\<not> isSpace (hd r)" unfolding rs skipWs_def by (rule hd_dropWhile)
  then have "\<not> isLineTerminator (hd r)" using lineTerminator_isSpace by blast
  with rne have "g \<noteq> [] \<and> hd g = hd r" unfolding g by (cases r) auto
  moreover have "\<exists>r. t = CHR ''#'' # r"
  proof -
    have "takeWhile (\<lambda>c. c = CHR ''#'') t \<noteq> []" using bounds n'_def by auto
    then show ?thesis by (cases t) (auto split: if_splits)
  qed
  ultimately show ?thesis using n bounds hr unfolding t_def by simp
qed

lemma hash_line_not_list:
  assumes "skipWs line = CHR ''#'' # r"
  shows "detectListType line = None"
  using assms
  by (simp add: detectListType_def listPatterns_def digits1_def oneOf_def oneSat_def
        isDigit_def isAlpha_def isLower_def isUpper_def code_def)

lemma atx_line_step:
  assumes "atxMatch (trim line) = Some (n, g)" and "\<not> inCodeBlock st"
  shows "analyzeLine lines st (i, line) =
           st\<lparr>blocks := pushCurrent st @ [headingBlock (trim g) (Some n)], currentBlock := None\<rparr>"
proof -
  from atxMatch_facts[OF assms(1)] obtain r where t: "trim line = CHR ''#'' # r" by blast
  then obtain r' where "skipWs line = CHR ''#'' # r'" using trim_Cons_skipWs by blast
  then have nl: "detectListType line = None" by (rule hash_line_not_list)
  have h: "analyzeHeading (trim line) lines i =
     \<lparr>isHeading = True, headingText = trim g, remainingContent = [], hlevel = Some n\<rparr>"
    using assms(1) by (simp add: analyzeHeading_def)
  show ?thesis
    unfolding analyzeLine_def Let_def
    using assms(2) nl h t by (simp add: startsWith_def)
qed

lemma runLines_append:
  "runLines lines st (xs @ ys) = runLines lines (runLines lines st xs) ys"
  by (simp add: runLines_def)

lemma analyzeLine_blocks_mono: "set (blocks st) \<subseteq> set (blocks (analyzeLine lines st il))"
  using analyzeLine_appends[of lines st il] by auto

lemma runLines_blocks_mono: "set (blocks st) \<subseteq> set (blocks (runLines lines st ils))"
proof (induction ils rule: rev_induct)
  case Nil
  show ?case by (simp add: runLines_Nil)
next
  case (snoc il ils)
  then show ?case
    using analyzeLine_blocks_mono[of "runLines lines st ils" lines il]
    by (auto simp: runLines_snoc)
qed

lemma blocks_subset_pushCurrent: "set (blocks st) \<subseteq> set (pushCurrent st)"
  by (auto simp: pushCurrent_def split: option.splits)

lemma take_Suc_enumerate:
  assumes "i < length xs"
  shows "take (Suc i) (enumerate 0 xs) = take i (enumerate 0 xs) @ [(i, xs ! i)]"
  using assms by (simp add: take_Suc_conv_app_nth nth_enumerate_eq)

lemma enumerate_split:
  assumes "i < length xs"
  shows "enumerate 0 xs = take i (enumerate 0 xs) @ [(i, xs ! i)] @ drop (Suc i) (enumerate 0 xs)"
proof -
  have "enumerate 0 xs = take (Suc i) (enumerate 0 xs) @ drop (Suc i) (enumerate 0 xs)"
    by simp
  then show ?thesis using take_Suc_enumerate[OF assms] by simp
qed

text \<open>An ATX heading line reached outside a code block leaves a heading block in the
  result.\<close>

lemma atx_line_gives_heading:
  assumes i: "i < length (split newline text)"
    and atx: "atxMatch (trim (split newline text ! i)) = Some (n, g)"
    and nc: "\<not> inCodeBlock (runLines (split newline text) initState
                 (take i (enumerate 0 (split newline text))))"
  shows "headingBlock (trim g) (Some n) \<in> set (analyzeTextStructure text)"
proof -
  define lines where "lines = split newline text"
  define st where "st = runLines lines initState (take i (enumerate 0 lines))"
  define st1 where "st1 = analyzeLine lines st (i, lines ! i)"
  have "st1 = st\<lparr>blocks := pushCurrent st @ [headingBlock (trim g) (Some n)],
                   currentBlock := None\<rparr>"
    unfolding st1_def using atx nc unfolding lines_def[symmetric] st_def[symmetric]
    by (rule atx_line_step)
  then have in1: "headingBlock (trim g) (Some n) \<in> set (blocks st1)" by simp
  have "runLines lines initState (enumerate 0 lines) =
        runLines lines st1 (drop (Suc i) (enumerate 0 lines))"
    using enumerate_split[of i lines] i unfolding lines_def[symmetric]
    by (metis runLines_append runLines_snoc st1_def st_def append_assoc)
  then have "set (blocks st1) \<subseteq> set (blocks (runLines lines initState (enumerate 0 lines)))"
    using runLines_blocks_mono by simp
  with in1 show ?thesis
    unfolding analyzeTextStructure_def Let_def lines_def[symmetric]
    using blocks_subset_pushCurrent by blast
qed

lemma renderBlock_appends:
  "\<exists>p. markdown (renderBlock st b) = markdown st @ p \<and> p \<noteq> [] \<and> last p = newline"
  unfolding renderBlock_def Let_def by (cases "btype b") auto

lemma renderBlock_heading:
  "btype b = Heading \<Longrightarrow>
     markdown (renderBlock st b) =
       markdown st @ replicate (levelOrOne b) CHR ''#'' @ '' '' @ content b @ [newline, newline]"
  by (simp add: renderBlock_def)

lemma foldl_render_appends:
  "\<exists>p. markdown (foldl renderBlock st bs) = markdown st @ p \<and> (p = [] \<or> last p = newline)"
proof (induction bs arbitrary: st)
  case Nil
  show ?case by simp
next
  case (Cons b bs)
  obtain p where p: "markdown (renderBlock st b) = markdown st @ p" "p \<noteq> []" "last p = newline"
    using renderBlock_appends by blast
  obtain q where q: "markdown (foldl renderBlock (renderBlock st b) bs) =
      markdown (renderBlock st b) @ q" "q = [] \<or> last q = newline"
    using Cons.IH by blast
  have "markdown (foldl renderBlock st (b # bs)) = markdown st @ (p @ q)"
    using p q by simp
  moreover have "p @ q = [] \<or> last (p @ q) = newline"
    using p q by (cases "q = []") auto
  ultimately show ?case by blast
qed

lemma render_contains_heading:
  assumes "b \<in> set bs" and "btype b = Heading"
  shows "\<exists>pre post. markdown (foldl renderBlock initRender bs) =
           pre @ (replicate (levelOrOne b) CHR ''#'' @ '' '' @ content b @ [newline, newline]) @ post
           \<and> (pre = [] \<or> last pre = newline)"
proof -
  from assms(1) obtain xs ys where bs: "bs = xs @ b # ys" by (meson split_list)
  define s1 where "s1 = foldl renderBlock initRender xs"
  obtain pre where pre: "markdown s1 = pre" "pre = [] \<or> last pre = newline"
    using foldl_render_appends[of initRender xs] unfolding s1_def initRender_def by auto
  obtain post where post: "markdown (foldl renderBlock (renderBlock s1 b) ys) =
      markdown (renderBlock s1 b) @ post"
    using foldl_render_appends by blast
  have "markdown (foldl renderBlock initRender bs) =
      pre @ (replicate (levelOrOne b) CHR ''#'' @ '' '' @ content b @ [newline, newline]) @ post"
    unfolding bs using post pre(1) renderBlock_heading[OF assms(2), of s1]
    by (simp add: s1_def)
  with pre(2) show ?thesis by blast
qed

lemma searchHeader_start: "headerAt rest \<Longrightarrow> searchHeader True rest"
  by (cases rest) (auto simp: headerAt_def)

lemma searchHeader_after_line:
  "pre \<noteq> [] \<Longrightarrow> isLineTerminator (last pre) \<Longrightarrow> headerAt rest \<Longrightarrow>
     searchHeader b (pre @ rest)"
proof (induction pre arbitrary: b)
  case Nil
  then show ?case by simp
next
  case (Cons c pre)
  show ?case
  proof (cases "pre = []")
    case True
    with Cons.prems have "isLineTerminator c" by simp
    moreover have "rest \<noteq> []" using Cons.prems(3) by (auto simp: headerAt_def)
    ultimately show ?thesis using True Cons.prems(3) by (cases rest) auto
  next
    case False
    with Cons.prems have "isLineTerminator (last pre)" by simp
    from Cons.IH[OF False this Cons.prems(3)] show ?thesis by simp
  qed
qed

lemma headerAt_hashes:
  assumes "1 \<le> n" and "n \<le> 6" and "x \<noteq> newline"
  shows "headerAt (replicate n CHR ''#'' @ CHR '' '' # x # rest)"
proof -
  have "takeWhile (\<lambda>c. c = CHR ''#'') (replicate n CHR ''#'' @ CHR '' '' # x # rest) =
        replicate n CHR ''#''"
    by (induction n) simp_all
  then show ?thesis using assms by (simp add: headerAt_def)
qed

lemma dropWhile_keep:
  assumes "k \<noteq> []" and "\<not> P (hd k)"
  shows "dropWhile P (xs @ k @ ys) = dropWhile P xs @ k @ ys"
proof -
  have "dropWhile P (k @ ys) = k @ ys" using assms by (cases k) auto
  then show ?thesis by (simp add: dropWhile_append dropWhile_eq_Nil_conv)
qed

lemma trim_keeps:
  assumes "k \<noteq> []" and "\<not> isSpace (hd k)" and "\<not> isSpace (last k)"
  shows "\<exists>pre' post'. trim (pre @ k @ post) = pre' @ k @ post' \<and>
           (pre' = [] \<or> (pre \<noteq> [] \<and> last pre' = last pre))"
proof -
  define pre' where "pre' = dropWhile isSpace pre"
  define post' where "post' = rev (dropWhile isSpace (rev post))"
  have 1: "dropWhile isSpace (pre @ k @ post) = pre' @ k @ post"
    unfolding pre'_def using assms(1,2) by (rule dropWhile_keep)
  have "dropWhile isSpace (rev post @ rev k @ rev pre') =
        dropWhile isSpace (rev post) @ rev k @ rev pre'"
    using assms(1,3) by (intro dropWhile_keep) (simp_all add: hd_rev)
  then have 2: "rev (dropWhile isSpace (rev (pre' @ k @ post))) = pre' @ k @ post'"
    unfolding post'_def by simp
  have "pre' = [] \<or> (pre \<noteq> [] \<and> last pre' = last pre)"
  proof (cases "pre' = []")
    case False
    have "pre = takeWhile isSpace pre @ pre'" unfolding pre'_def by simp
    then show ?thesis using False by (metis last_appendR append_is_Nil_conv)
  qed simp
  then show ?thesis unfolding trim_def 1 2 by blast
qed

lemma trim_nonempty:
  assumes "g \<noteq> []" and "\<not> isSpace (hd g)"
  shows "trim g \<noteq> []"
proof -
  have "dropWhile isSpace g = g" using assms by (cases g) auto
  moreover have "dropWhile isSpace (rev g) \<noteq> []"
    using assms by (cases g) (auto simp: dropWhile_eq_Nil_conv)
  ultimately show ?thesis by (simp add: trim_def)
qed

lemma newline_isSpace: "isSpace newline"
  by (simp add: isSpace_def newline_def code_def)

lemma hash_not_space: "\<not> isSpace CHR ''#''"
  by (simp add: isSpace_def code_def)

lemma heading_rendered_valid:
  assumes "b \<in> set bs" and "btype b = Heading" and "level b = Some n"
    and "1 \<le> n" and "n \<le> 6" and "content b \<noteq> []" and "\<not> isSpace (hd (content b))"
  shows "searchHeader True (blocksToMarkdown bs)"
proof -
  obtain x cs where c: "content b = x # cs" using assms(6) by (cases "content b") auto
  have x: "\<not> isSpace x" using assms(7) c by simp
  then have xn: "x \<noteq> newline" using newline_isSpace by auto
  have lv: "levelOrOne b = n" using assms(3,4) by (simp add: levelOrOne_def)
  define k where "k = replicate n CHR ''#'' @ [CHR '' '', x]"
  obtain pre post where md: "markdown (foldl renderBlock initRender bs) =
      pre @ (replicate n CHR ''#'' @ '' '' @ content b @ [newline, newline]) @ post"
    and pre: "pre = [] \<or> last pre = newline"
    using render_contains_heading[OF assms(1,2)] unfolding lv by blast
  have md': "markdown (foldl renderBlock initRender bs) = pre @ k @ (cs @ [newline, newline] @ post)"
    unfolding md k_def c by simp
  have k1: "k \<noteq> []" and k3: "\<not> isSpace (last k)" unfolding k_def using x by simp_all
  have k2: "\<not> isSpace (hd k)"
    unfolding k_def using assms(4) hash_not_space by (cases n) simp_all
  obtain pre' post' where t: "blocksToMarkdown bs = pre' @ k @ post'"
    and p': "pre' = [] \<or> (pre \<noteq> [] \<and> last pre' = last pre)"
    unfolding blocksToMarkdown_def md' using trim_keeps[OF k1 k2 k3] by blast
  have h: "headerAt (k @ post')"
    unfolding k_def using headerAt_hashes[OF assms(4,5) xn] by simp
  show ?thesis
  proof (cases "pre' = []")
    case True
    then show ?thesis unfolding t using h by (simp add: searchHeader_start)
  next
    case False
    with p' pre have "last pre' = newline" by auto
    then have "isLineTerminator (last pre')"
      by (simp add: isLineTerminator_def newline_def code_def)
    from searchHeader_after_line[OF False this h] show ?thesis unfolding t .
  qed
qed

section \<open>Rendering and analysing again\<close>

lemma trim_id:
  assumes "s \<noteq> []" and "\<not> isSpace (hd s)" and "\<not> isSpace (last s)"
  shows "trim s = s"
proof -
  have "dropWhile isSpace s = s" using assms(1,2) by (cases s) auto
  moreover have "dropWhile isSpace (rev s) = rev s"
    using assms(1,3) by (cases "rev s") (auto simp: hd_rev[symmetric] simp del: hd_rev)
  ultimately show ?thesis by (simp add: trim_def)
qed

lemma trim_fixed_ends:
  assumes "trim c = c" and "c \<noteq> []"
  shows "\<not> isSpace (hd c)" and "\<not> isSpace (last c)"
  using assms trim_hd[of c] trim_last[of c] by simp_all

lemma skipWs_id: "s \<noteq> [] \<Longrightarrow> \<not> isSpace (hd s) \<Longrightarrow> skipWs s = s"
  by (cases s) (auto simp: skipWs_def)

lemma takeWhile_hashes:
  "takeWhile (\<lambda>c. c = CHR ''#'') (replicate n CHR ''#'' @ CHR '' '' # r) = replicate n CHR ''#''"
  by (induction n) simp_all

lemma space_isSpace: "isSpace CHR '' ''"
  by (simp add: isSpace_def code_def)

lemma atxMatch_rendered:
  assumes "1 \<le> n" and "n \<le> 6" and "trim c = c" and "c \<noteq> []"
    and "list_all (\<lambda>x. \<not> isLineTerminator x) c"
  shows "atxMatch (replicate n CHR ''#'' @ '' '' @ c) = Some (n, c)"
proof -
  have sk: "skipWs c = c" using assms(3,4) trim_fixed_ends(1) skipWs_id by blast
  have tw: "takeWhile (\<lambda>x. \<not> isLineTerminator x) c = c"
    using assms(5) by (simp add: list_all_iff)
  show ?thesis
    unfolding atxMatch_def Let_def
    using assms(1,2) sk tw by (simp add: takeWhile_hashes ws1_def space_isSpace)
qed

lemma heading_line_trim:
  assumes "1 \<le> n" and "trim c = c" and "c \<noteq> []"
  shows "trim (replicate n CHR ''#'' @ '' '' @ c) = replicate n CHR ''#'' @ '' '' @ c"
proof (rule trim_id)
  show "replicate n CHR ''#'' @ '' '' @ c \<noteq> []" using assms(3) by simp
  show "\<not> isSpace (hd (replicate n CHR ''#'' @ '' '' @ c))"
    using assms(1) hash_not_space by (cases n) simp_all
  show "\<not> isSpace (last (replicate n CHR ''#'' @ '' '' @ c))"
    using assms(2,3) trim_fixed_ends(2) by simp
qed

lemma heading_line_step:
  assumes "1 \<le> n" and "n \<le> 6" and "trim c = c" and "c \<noteq> []"
    and "list_all (\<lambda>x. \<not> isLineTerminator x) c" and "\<not> inCodeBlock st"
  shows "analyzeLine lines st (i, replicate n CHR ''#'' @ '' '' @ c) =
           st\<lparr>blocks := pushCurrent st @ [headingBlock c (Some n)], currentBlock := None\<rparr>"
proof -
  have "atxMatch (trim (replicate n CHR ''#'' @ '' '' @ c)) = Some (n, c)"
    unfolding heading_line_trim[OF assms(1,3,4)] by (rule atxMatch_rendered[OF assms(1-5)])
  from atx_line_step[OF this assms(6)] show ?thesis using assms(3) by simp
qed

lemma blank_step:
  assumes "\<not> inCodeBlock st" and "trim l = []"
  shows "analyzeLine lines st (i, l) =
     (case currentBlock st of
        Some b \<Rightarrow> if btype b \<noteq> List then st\<lparr>blocks := blocks st @ [b], currentBlock := None\<rparr>
                  else st
      | None \<Rightarrow> st)"
  using assms by (simp add: analyzeLine_def startsWith_def)

lemma analyzeHeading_no_setext:
  assumes "\<not> setextNext lines i"
  shows "analyzeHeading t lines i = analyzeHeading t [t] 0"
  using assms by (auto simp: analyzeHeading_def setextNext_def)

lemma plain_line_step:
  assumes "plainLine c" and "\<not> inCodeBlock st" and "currentBlock st = None"
    and "\<not> setextNext lines i"
  shows "analyzeLine lines st (i, c) = st\<lparr>currentBlock := Some (mkBlock Paragraph c)\<rparr>"
proof -
  have h: "\<not> isHeading (analyzeHeading (trim c) lines i)"
    using assms(1,4) by (simp add: plainLine_def analyzeHeading_no_setext)
  show ?thesis
    unfolding analyzeLine_def Let_def
    using assms(1,2,3) h by (simp add: plainLine_def)
qed

lemma dash_not_space: "\<not> isSpace CHR ''-''" "\<not> isSpace CHR ''1''" "\<not> isSpace CHR ''>''"
  "\<not> isSpace (CHR 0x60)"
  by (simp_all add: isSpace_def code_def)

lemma parseInt_one: "parseInt (indexOrOne None) = Num 1"
  by code_simp

lemma trim_marker: "\<not> isSpace a \<Longrightarrow> \<exists>r. trim (a # s) = a # r"
proof -
  assume a: "\<not> isSpace a"
  have "\<exists>ys. dropWhile isSpace (rev s @ [a]) = ys @ [a]"
    using a by (simp add: dropWhile_append)
  then obtain ys where "dropWhile isSpace (rev s @ [a]) = ys @ [a]" by blast
  then have "trim (a # s) = a # rev ys" using a by (simp add: trim_def)
  then show ?thesis by blast
qed

lemma skipWs_trimmed: "trim c = c \<Longrightarrow> skipWs c = c"
proof (cases "c = []")
  case True
  then show ?thesis by (simp add: skipWs_def)
next
  case False
  assume "trim c = c"
  with False show ?thesis using trim_fixed_ends(1) skipWs_id by blast
qed

lemma bullet_line_step:
  assumes "trim c = c" and "\<not> inCodeBlock st" and "currentBlock st = None"
  shows "analyzeLine lines st (i, ''- '' @ c) = st\<lparr>blocks := blocks st @ [listBlock c Bullet None]\<rparr>"
proof -
  have sk: "skipWs c = c" using assms(1) by (rule skipWs_trimmed)
  obtain r where t: "trim (''- '' @ c) = CHR ''-'' # r"
    using trim_marker[OF dash_not_space(1), of "'' '' @ c"] by auto
  have m: "matchPattern BulletPat (''- '' @ c) = Some (Some ''-'', c)"
    using sk by (simp add: skipWs_def dash_not_space ws1_def space_isSpace)
  have d: "\<not> digitMarker (''- '' @ c)"
    by (simp add: digitMarker_def skipWs_def dash_not_space digits1_def isDigit_def code_def)
  have dl: "detectListType (''- '' @ c) =
      Some \<lparr>lm_type = Bullet, lm_pattern = BulletPat, lm_index = Some ''-''\<rparr>"
    unfolding detectListType_def listPatterns_def using m d by simp
  have rp: "removePattern BulletPat (''- '' @ c) = c"
    unfolding removePattern_def using m by simp
  show ?thesis
    unfolding analyzeLine_def Let_def
    using assms t dl rp by (simp add: startsWith_def)
qed

lemma numbered_line_step:
  assumes "trim c = c" and "\<not> inCodeBlock st" and "currentBlock st = None"
  shows "analyzeLine lines st (i, ''1. '' @ c) =
           st\<lparr>blocks := blocks st @ [listBlock c Numbered (Some (Num 1))]\<rparr>"
proof -
  have sk: "skipWs c = c" using assms(1) by (rule skipWs_trimmed)
  obtain r where t: "trim (''1. '' @ c) = CHR ''1'' # r"
    using trim_marker[OF dash_not_space(2), of "''. '' @ c"] by auto
  have m1: "matchPattern BulletPat (''1. '' @ c) = None"
    by (simp add: skipWs_def dash_not_space)
  have m2: "matchPattern NumberedPat (''1. '' @ c) = Some (None, c)"
    using sk by (simp add: skipWs_def dash_not_space digits1_def isDigit_def code_def oneOf_def
        ws1_def space_isSpace)
  have d: "digitMarker (''1. '' @ c)"
    by (simp add: digitMarker_def skipWs_def dash_not_space digits1_def isDigit_def code_def
        oneOf_def)
  have dl: "detectListType (''1. '' @ c) =
      Some \<lparr>lm_type = Numbered, lm_pattern = NumberedPat, lm_index = None\<rparr>"
    unfolding detectListType_def listPatterns_def using m1 m2 d by simp
  have rp: "removePattern NumberedPat (''1. '' @ c) = c"
    unfolding removePattern_def using m2 by simp
  show ?thesis
    unfolding analyzeLine_def Let_def
    using assms t dl rp parseInt_one by (simp add: startsWith_def)
qed

lemma quote_marker_trim: "trim ''> '' = ''>''" "trim ''>'' = ''>''"
  by code_simp+

lemma quote_line_step:
  assumes "q = [] \<or> \<not> isSpace (last q)" and "\<not> inCodeBlock st"
    and "currentBlock st = None"
  shows "analyzeLine lines st (i, ''> '' @ q) = st\<lparr>currentBlock := Some (mkBlock Quote q)\<rparr>"
proof (cases "q = []")
  case True
  show ?thesis
    unfolding analyzeLine_def Let_def
    using assms(2,3) True by (simp add: quote_marker_trim startsWith_def)
next
  case False
  with assms(1) have l: "\<not> isSpace (last q)" by simp
  have t: "trim (''> '' @ q) = ''> '' @ q"
    using False l dash_not_space by (intro trim_id) simp_all
  show ?thesis
    unfolding analyzeLine_def Let_def
    using assms(2,3) t by (simp add: startsWith_def space_isSpace)
qed

lemma bare_quote_step:
  assumes "\<not> inCodeBlock st" and "currentBlock st = None"
  shows "analyzeLine lines st (i, ''>'') = st\<lparr>currentBlock := Some (mkBlock Quote [])\<rparr>"
  unfolding analyzeLine_def Let_def
  using assms by (simp add: quote_marker_trim startsWith_def)

lemma fence_trim: "trim ''```'' = ''```''"
  by code_simp

lemma fence_open_step:
  assumes "\<not> inCodeBlock st"
  shows "analyzeLine lines st (i, ''```'') = st\<lparr>inCodeBlock := True\<rparr>"
  unfolding analyzeLine_def Let_def using assms by (simp add: fence_trim startsWith_def)

lemma fence_close_step:
  assumes "inCodeBlock st"
  shows "analyzeLine lines st (i, ''```'') =
     st\<lparr>inCodeBlock := False, blocks := blocks st @ [mkBlock Code (codeBlockContent st)],
        codeBlockContent := []\<rparr>"
  unfolding analyzeLine_def Let_def using assms by (simp add: fence_trim startsWith_def)

lemma code_line_step:
  assumes "inCodeBlock st" and "\<not> startsWith (trim l) ''```''"
  shows "analyzeLine lines st (i, l) = st\<lparr>codeBlockContent := codeBlockContent st @ l @ [newline]\<rparr>"
  unfolding analyzeLine_def Let_def using assms by simp

lemma analyzeHeading_context:
  "analyzeHeading t lines i =
     analyzeHeading t (x # (if i + 1 < length lines then [lines ! (i + 1)] else [])) 0"
  by (simp add: analyzeHeading_def)

lemma analyzeLine_context:
  "analyzeLine lines st (i, l) =
     analyzeLine (l # (if i + 1 < length lines then [lines ! (i + 1)] else [])) st (0, l)"
proof -
  define ctx where "ctx = l # (if i + 1 < length lines then [lines ! (i + 1)] else [])"
  have eq: "analyzeHeading (trim l) lines i = analyzeHeading (trim l) ctx 0"
    unfolding ctx_def by (rule analyzeHeading_context)
  show ?thesis
    unfolding ctx_def[symmetric] by (simp only: analyzeLine_def fst_conv snd_conv Let_def eq)
qed

lemma runLines_suffix:
  "drop k L = xs \<Longrightarrow> foldl (analyzeLine L) st (enumerate k xs) = runA st xs"
proof (induction xs arbitrary: k st)
  case Nil
  then show ?case by simp
next
  case (Cons x xs)
  from Cons.prems have k: "k < length L" by (metis drop_eq_Nil2 list.discI not_le)
  from Cons.prems have x: "L ! k = x" and d: "drop (Suc k) L = xs"
    using k by (metis Cons_nth_drop_Suc list.inject)+
  have "(if k + 1 < length L then [L ! (k + 1)] else []) = take 1 xs"
  proof (cases "k + 1 < length L")
    case True
    then have "xs = L ! (k + 1) # drop (Suc (Suc k)) L"
      using d by (metis Cons_nth_drop_Suc Suc_eq_plus1)
    then show ?thesis using True by (metis One_nat_def take_Suc_Cons take0)
  next
    case False
    then have "xs = []" using d by simp
    then show ?thesis using False by simp
  qed
  then have "analyzeLine L st (k, x) = analyzeLine (x # take 1 xs) st (0, x)"
    using analyzeLine_context[of L st k x] by simp
  then show ?case using Cons.IH[OF d] by simp
qed

lemma runLines_runA: "runLines L st (enumerate 0 L) = runA st L"
  unfolding runLines_def by (rule runLines_suffix) simp

lemma trim_Nil: "trim [] = []"
  by (simp add: trim_def)

lemma runA_code_lines:
  assumes "inCodeBlock st" and "list_all (\<lambda>l. \<not> startsWith (trim l) ''```'') cl"
    and "rest \<noteq> []"
  shows "runA st (cl @ rest) = runA (st\<lparr>codeBlockContent := codeBlockContent st @ unlines cl\<rparr>) rest"
  using assms
proof (induction cl arbitrary: st)
  case Nil
  then show ?case by (simp add: unlines_def)
next
  case (Cons l cl)
  have "analyzeLine (l # take 1 (cl @ rest)) st (0, l) =
        st\<lparr>codeBlockContent := codeBlockContent st @ l @ [newline]\<rparr>"
    using Cons.prems by (intro code_line_step) simp_all
  moreover have "inCodeBlock (st\<lparr>codeBlockContent := codeBlockContent st @ l @ [newline]\<rparr>)"
    using Cons.prems by simp
  ultimately show ?case
    using Cons.IH[of "st\<lparr>codeBlockContent := codeBlockContent st @ l @ [newline]\<rparr>"] Cons.prems
    by (simp add: unlines_def)
qed

lemma split_nonempty: "split d s \<noteq> []"
  by (induction s) (auto split: list.splits)

lemma unlines_butlast_split:
  "last (split newline c) = [] \<Longrightarrow> unlines (butlast (split newline c)) = c"
proof (induction c)
  case Nil
  then show ?case by (simp add: unlines_def)
next
  case (Cons x c)
  show ?case
  proof (cases "x = newline")
    case True
    with Cons show ?thesis using split_nonempty[of newline c] by (simp add: unlines_def)
  next
    case False
    obtain w ws where s: "split newline c = w # ws"
      using split_nonempty[of newline c] by (cases "split newline c") auto
    show ?thesis
    proof (cases ws)
      case Nil
      with Cons.prems False s show ?thesis by simp
    next
      case (Cons w' ws')
      with Cons.prems Cons.IH False s show ?thesis by (simp add: unlines_def)
    qed
  qed
qed

lemma runA_blank:
  assumes "\<not> inCodeBlock st" and "currentBlock st = None"
  shows "runA st ([] # rest) = runA st rest"
proof -
  have "analyzeLine ([] # take 1 rest) st (0, []) = st"
    using assms by (simp add: blank_step trim_Nil)
  then show ?thesis by simp
qed

lemma runA_blank_flush:
  assumes "\<not> inCodeBlock st" and "currentBlock st = Some b" and "btype b \<noteq> List"
  shows "runA st ([] # rest) = runA (st\<lparr>blocks := blocks st @ [b], currentBlock := None\<rparr>) rest"
proof -
  have "analyzeLine ([] # take 1 rest) st (0, []) =
        st\<lparr>blocks := blocks st @ [b], currentBlock := None\<rparr>"
    using assms by (simp add: blank_step trim_Nil)
  then show ?thesis by simp
qed

lemma showInt_one: "showInt 1 = ''1''"
  by code_simp

lemma heading_block_run:
  assumes "canonical b" and "btype b = Heading"
    and "\<not> inCodeBlock st" and "currentBlock st = None"
  shows "runA st (blockLines b @ rest) = runA (st\<lparr>blocks := blocks st @ [b]\<rparr>) rest"
proof -
  from assms(1,2) obtain n where n: "level b = Some n" "1 \<le> n" "n \<le> 6"
    and c: "trim (content b) = content b" "content b \<noteq> []"
      "list_all (\<lambda>c. \<not> isLineTerminator c) (content b)"
    and m: "listType b = None" "listIndex b = None"
    by (auto simp: canonical_def split: option.splits)
  define h where "h = replicate n CHR ''#'' @ '' '' @ content b"
  have lv: "levelOrOne b = n" using n by (simp add: levelOrOne_def)
  have b: "b = headingBlock (content b) (Some n)"
    using assms(2) n m by (simp add: headingBlock_def)
  define st1 where "st1 = st\<lparr>blocks := blocks st @ [b]\<rparr>"
  have "analyzeLine (h # take 1 ([] # rest)) st (0, h) =
     st\<lparr>blocks := pushCurrent st @ [headingBlock (content b) (Some n)], currentBlock := None\<rparr>"
    unfolding h_def using n(2,3) c assms(3) by (rule heading_line_step)
  also have "\<dots> = st1"
    unfolding st1_def using assms(4) b by (simp add: pushCurrent_def)
  finally have s1: "analyzeLine (h # take 1 ([] # rest)) st (0, h) = st1" .
  have "runA st (blockLines b @ rest) = runA st (h # [] # rest)"
    by (simp add: blockLines_def assms(2) lv h_def)
  also have "\<dots> = runA st1 ([] # rest)"
    using s1 by (simp only: runA.simps)
  also have "\<dots> = runA st1 rest"
    using assms(3,4) by (intro runA_blank) (simp_all add: st1_def)
  finally show ?thesis unfolding st1_def .
qed

lemma underline_Nil: "\<not> underline c []"
  by (simp add: underline_def)

lemma paragraph_block_run:
  assumes "canonical b" and "btype b = Paragraph"
    and "\<not> inCodeBlock st" and "currentBlock st = None"
  shows "runA st (blockLines b @ rest) = runA (st\<lparr>blocks := blocks st @ [b]\<rparr>) rest"
proof -
  from assms(1,2) have p: "plainLine (content b)" and m: "noMeta b"
    by (auto simp: canonical_def)
  define c where "c = content b"
  have b: "b = mkBlock Paragraph c"
    using assms(2) m by (simp add: mkBlock_def noMeta_def c_def)
  define st1 where "st1 = st\<lparr>currentBlock := Some b\<rparr>"
  have ns: "\<not> setextNext (c # take 1 ([] # rest)) 0"
    by (simp add: setextNext_def underline_Nil)
  have "analyzeLine (c # take 1 ([] # rest)) st (0, c) =
        st\<lparr>currentBlock := Some (mkBlock Paragraph c)\<rparr>"
    using p assms(3,4) ns unfolding c_def by (rule plain_line_step)
  then have s1: "analyzeLine (c # take 1 ([] # rest)) st (0, c) = st1"
    unfolding st1_def using b by simp
  have "runA st (blockLines b @ rest) = runA st (c # [] # rest)"
    by (simp add: blockLines_def assms(2) c_def)
  also have "\<dots> = runA st1 ([] # rest)"
    using s1 by (simp only: runA.simps)
  also have "\<dots> = runA (st1\<lparr>blocks := blocks st1 @ [b], currentBlock := None\<rparr>) rest"
    using assms(2,3) by (intro runA_blank_flush) (simp_all add: st1_def)
  also have "st1\<lparr>blocks := blocks st1 @ [b], currentBlock := None\<rparr> = st\<lparr>blocks := blocks st @ [b]\<rparr>"
    unfolding st1_def using assms(4) by simp
  finally show ?thesis .
qed

lemma quote_block_run:
  assumes "canonical b" and "btype b = Quote"
    and "\<not> inCodeBlock st" and "currentBlock st = None"
  shows "runA st (blockLines b @ rest) = runA (st\<lparr>blocks := blocks st @ [b]\<rparr>) rest"
proof -
  define q where "q = content b"
  from assms(1,2) have p: "q = [] \<or> \<not> isSpace (last q)" and m: "noMeta b"
    by (auto simp: canonical_def q_def)
  have b: "b = mkBlock Quote q"
    using assms(2) m by (simp add: mkBlock_def noMeta_def q_def)
  define st1 where "st1 = st\<lparr>currentBlock := Some b\<rparr>"
  define l where "l = ''> '' @ q"
  have "analyzeLine (l # take 1 ([] # rest)) st (0, l) =
        st\<lparr>currentBlock := Some (mkBlock Quote q)\<rparr>"
    unfolding l_def using p assms(3,4) by (rule quote_line_step)
  then have s1: "analyzeLine (l # take 1 ([] # rest)) st (0, l) = st1"
    unfolding st1_def using b by simp
  have "runA st (blockLines b @ rest) = runA st (l # [] # rest)"
    by (simp add: blockLines_def assms(2) q_def l_def)
  also have "\<dots> = runA st1 ([] # rest)"
    using s1 by (simp only: runA.simps)
  also have "\<dots> = runA (st1\<lparr>blocks := blocks st1 @ [b], currentBlock := None\<rparr>) rest"
    using assms(2,3) by (intro runA_blank_flush) (simp_all add: st1_def)
  also have "st1\<lparr>blocks := blocks st1 @ [b], currentBlock := None\<rparr> = st\<lparr>blocks := blocks st @ [b]\<rparr>"
    unfolding st1_def using assms(4) by simp
  finally show ?thesis .
qed

lemma list_block_run:
  assumes "canonical b" and "btype b = List"
    and "\<not> inCodeBlock st" and "currentBlock st = None"
  shows "runA st (blockLines b @ rest) = runA (st\<lparr>blocks := blocks st @ [b]\<rparr>) rest"
proof -
  define c where "c = content b"
  from assms(1,2) have p: "trim c = c" and lv: "level b = None"
    and k: "listType b = Some Bullet \<and> listIndex b = None \<or>
            listType b = Some Numbered \<and> listIndex b = Some (Num 1)"
    by (auto simp: canonical_def c_def)
  from k show ?thesis
  proof
    assume a: "listType b = Some Bullet \<and> listIndex b = None"
    have b: "b = listBlock c Bullet None"
      using assms(2) lv a by (simp add: listBlock_def c_def)
    have "analyzeLine ((''- '' @ c) # take 1 rest) st (0, ''- '' @ c) =
          st\<lparr>blocks := blocks st @ [listBlock c Bullet None]\<rparr>"
      using p assms(3,4) by (rule bullet_line_step)
    then have s1: "analyzeLine ((''- '' @ c) # take 1 rest) st (0, ''- '' @ c) =
          st\<lparr>blocks := blocks st @ [b]\<rparr>"
      using b by simp
    have "runA st (blockLines b @ rest) = runA st ((''- '' @ c) # rest)"
      using a by (simp add: blockLines_def assms(2) c_def listPrefix_def)
    also have "\<dots> = runA (st\<lparr>blocks := blocks st @ [b]\<rparr>) rest"
      using s1 by (simp only: runA.simps)
    finally show ?thesis .
  next
    assume a: "listType b = Some Numbered \<and> listIndex b = Some (Num 1)"
    have b: "b = listBlock c Numbered (Some (Num 1))"
      using assms(2) lv a by (simp add: listBlock_def c_def)
    have "analyzeLine ((''1. '' @ c) # take 1 rest) st (0, ''1. '' @ c) =
          st\<lparr>blocks := blocks st @ [listBlock c Numbered (Some (Num 1))]\<rparr>"
      using p assms(3,4) by (rule numbered_line_step)
    then have s1: "analyzeLine ((''1. '' @ c) # take 1 rest) st (0, ''1. '' @ c) =
          st\<lparr>blocks := blocks st @ [b]\<rparr>"
      using b by simp
    have "runA st (blockLines b @ rest) = runA st ((''1. '' @ c) # rest)"
      using a by (simp add: blockLines_def assms(2) c_def listPrefix_def showInt_one)
    also have "\<dots> = runA (st\<lparr>blocks := blocks st @ [b]\<rparr>) rest"
      using s1 by (simp only: runA.simps)
    finally show ?thesis .
  qed
qed

lemma code_block_run:
  assumes "canonical b" and "btype b = Code"
    and "\<not> inCodeBlock st" and "currentBlock st = None" and "codeBlockContent st = []"
  shows "runA st (blockLines b @ rest) = runA (st\<lparr>blocks := blocks st @ [b]\<rparr>) rest"
proof -
  define c where "c = content b"
  define cl where "cl = butlast (split newline c)"
  from assms(1,2) have ok: "codeOk c" and m: "noMeta b"
    by (auto simp: canonical_def c_def)
  have b: "b = mkBlock Code c"
    using assms(2) m by (simp add: mkBlock_def noMeta_def c_def)
  have nf: "list_all (\<lambda>l. \<not> startsWith (trim l) ''```'') cl"
    using ok unfolding codeOk_def cl_def by (auto simp: list_all_iff dest: in_set_butlastD)
  have ul: "unlines cl = c"
    using ok unfolding codeOk_def cl_def by (simp add: unlines_butlast_split)
  define st1 where "st1 = st\<lparr>inCodeBlock := True\<rparr>"
  define st2 where "st2 = st1\<lparr>codeBlockContent := codeBlockContent st1 @ unlines cl\<rparr>"
  define st3 where "st3 = st2\<lparr>inCodeBlock := False,
      blocks := blocks st2 @ [mkBlock Code (codeBlockContent st2)], codeBlockContent := []\<rparr>"
  have e3: "st3 = st\<lparr>blocks := blocks st @ [b]\<rparr>"
    unfolding st3_def st2_def st1_def using assms(3,5) ul b by simp
  have "runA st (blockLines b @ rest) = runA st (''```'' # (cl @ (''```'' # [] # rest)))"
    by (simp add: blockLines_def assms(2) c_def cl_def)
  also have "\<dots> = runA st1 (cl @ (''```'' # [] # rest))"
    unfolding st1_def using fence_open_step[OF assms(3)] by (simp only: runA.simps)
  also have "\<dots> = runA st2 (''```'' # [] # rest)"
    unfolding st2_def using nf by (intro runA_code_lines) (simp_all add: st1_def)
  also have "\<dots> = runA st3 ([] # rest)"
  proof -
    have "inCodeBlock st2" by (simp add: st2_def st1_def)
    from fence_close_step[OF this] show ?thesis
      unfolding st3_def by (simp only: runA.simps)
  qed
  also have "\<dots> = runA st3 rest"
    unfolding e3 using assms(3,4) by (intro runA_blank) simp_all
  finally show ?thesis unfolding e3 .
qed

lemma block_run:
  assumes "canonical b"
    and "\<not> inCodeBlock st" and "currentBlock st = None" and "codeBlockContent st = []"
  shows "runA st (blockLines b @ rest) = runA (st\<lparr>blocks := blocks st @ [b]\<rparr>) rest"
  using assms heading_block_run paragraph_block_run list_block_run code_block_run quote_block_run
  by (cases "btype b") blast+

lemma blocks_run:
  assumes "list_all canonical bs"
    and "\<not> inCodeBlock st" and "currentBlock st = None" and "codeBlockContent st = []"
  shows "runA st (concat (map blockLines bs) @ rest) = runA (st\<lparr>blocks := blocks st @ bs\<rparr>) rest"
  using assms
proof (induction bs arbitrary: st)
  case Nil
  then show ?case by simp
next
  case (Cons b bs)
  have "runA st (concat (map blockLines (b # bs)) @ rest) =
        runA st (blockLines b @ (concat (map blockLines bs) @ rest))"
    by simp
  also have "\<dots> = runA (st\<lparr>blocks := blocks st @ [b]\<rparr>) (concat (map blockLines bs) @ rest)"
    using Cons.prems by (intro block_run) simp_all
  also have "\<dots> = runA (st\<lparr>blocks := blocks st @ [b]\<rparr>\<lparr>blocks := blocks (st\<lparr>blocks := blocks st @ [b]\<rparr>) @ bs\<rparr>) rest"
    using Cons.prems by (intro Cons.IH) simp_all
  finally show ?case by simp
qed

lemma unlines_Cons: "unlines (l # ls) = l @ newline # unlines ls"
  by (simp add: unlines_def)

lemma unlines_append: "unlines (xs @ ys) = unlines xs @ unlines ys"
  by (simp add: unlines_def)

lemma unlines_Nil: "unlines [] = []"
  by (simp add: unlines_def)

lemma canonical_render:
  assumes "canonical b"
  shows "markdown (renderBlock st b) = markdown st @ unlines (blockLines b)"
proof (cases "btype b")
  case Heading
  then show ?thesis by (simp add: renderBlock_def blockLines_def unlines_def)
next
  case Paragraph
  then show ?thesis by (simp add: renderBlock_def blockLines_def unlines_def)
next
  case List
  with assms obtain k where k: "listType b = Some k"
    by (auto simp: canonical_def)
  show ?thesis
    using List k by (simp add: renderBlock_def blockLines_def unlines_def Let_def)
next
  case Code
  with assms have "codeOk (content b)" by (simp add: canonical_def)
  then have "unlines (butlast (split newline (content b))) = content b"
    by (simp add: codeOk_def unlines_butlast_split)
  then show ?thesis
    using Code by (simp add: renderBlock_def blockLines_def unlines_Cons unlines_append unlines_Nil)
next
  case Quote
  then show ?thesis by (simp add: renderBlock_def blockLines_def unlines_def)
qed

lemma canonical_render_all:
  "list_all canonical bs \<Longrightarrow>
     markdown (foldl renderBlock st bs) = markdown st @ unlines (concat (map blockLines bs))"
proof (induction bs arbitrary: st)
  case Nil
  then show ?case by (simp add: unlines_def)
next
  case (Cons b bs)
  then show ?case by (simp add: canonical_render unlines_append)
qed

lemma backtick_fence_solid: "solid (''```'' # cl @ [''```''])"
  by (simp add: solid_def dash_not_space)

lemma canonical_first_line:
  assumes "canonical b"
  shows "\<exists>l ls. blockLines b = l # ls \<and> l \<noteq> [] \<and> \<not> isSpace (hd l)"
proof (cases "btype b")
  case Heading
  with assms obtain n where n: "level b = Some n" "1 \<le> n"
    by (auto simp: canonical_def split: option.splits)
  have lv: "levelOrOne b = n" using n by (simp add: levelOrOne_def)
  show ?thesis
    using Heading lv n(2) hash_not_space by (cases n) (simp_all add: blockLines_def)
next
  case Paragraph
  with assms have c: "trim (content b) = content b" "content b \<noteq> []"
    by (auto simp: canonical_def plainLine_def)
  show ?thesis
    using Paragraph c trim_fixed_ends(1)[OF c] by (simp add: blockLines_def)
next
  case List
  with assms have k: "listType b = Some Bullet \<and> listIndex b = None \<or>
            listType b = Some Numbered \<and> listIndex b = Some (Num 1)"
    by (auto simp: canonical_def)
  have p: "listPrefix (listType b) b = ''- '' \<or> listPrefix (listType b) b = ''1. ''"
    using k by (auto simp: listPrefix_def showInt_one)
  then show ?thesis
    using List dash_not_space by (auto simp: blockLines_def)
next
  case Code
  then show ?thesis by (simp add: blockLines_def dash_not_space)
next
  case Quote
  then show ?thesis by (simp add: blockLines_def dash_not_space)
qed

lemma canonical_lines:
  assumes "canonical b" and "tight b"
  shows "\<exists>core sep. blockLines b = core @ sep \<and> solid core \<and> (sep = [] \<or> sep = [[]])"
proof (cases "btype b")
  case Heading
  with assms obtain n where n: "level b = Some n" "1 \<le> n"
    and c: "trim (content b) = content b" "content b \<noteq> []"
    by (auto simp: canonical_def split: option.splits)
  have lv: "levelOrOne b = n" using n by (simp add: levelOrOne_def)
  have "solid [replicate n CHR ''#'' @ '' '' @ content b]"
    using n(2) c trim_fixed_ends(2)[OF c] hash_not_space
    by (cases n) (simp_all add: solid_def)
  then show ?thesis
    using Heading lv by (intro exI[of _ "[replicate n CHR ''#'' @ '' '' @ content b]"] exI[of _ "[[]]"])
      (simp add: blockLines_def)
next
  case Paragraph
  with assms have c: "trim (content b) = content b" "content b \<noteq> []"
    by (auto simp: canonical_def plainLine_def)
  have "solid [content b]"
    using c trim_fixed_ends[OF c] by (simp add: solid_def)
  then show ?thesis
    using Paragraph by (intro exI[of _ "[content b]"] exI[of _ "[[]]"]) (simp add: blockLines_def)
next
  case List
  with assms have c: "trim (content b) = content b" "content b \<noteq> []"
    and k: "listType b = Some Bullet \<and> listIndex b = None \<or>
            listType b = Some Numbered \<and> listIndex b = Some (Num 1)"
    by (auto simp: canonical_def tight_def)
  have p: "listPrefix (listType b) b = ''- '' \<or> listPrefix (listType b) b = ''1. ''"
    using k by (auto simp: listPrefix_def showInt_one)
  have "solid [listPrefix (listType b) b @ content b]"
    using p c trim_fixed_ends(2)[OF c] dash_not_space by (auto simp: solid_def)
  then show ?thesis
    using List by (intro exI[of _ "[listPrefix (listType b) b @ content b]"] exI[of _ "[]"])
      (simp add: blockLines_def)
next
  case Code
  then show ?thesis
    using backtick_fence_solid[of "butlast (split newline (content b))"]
    by (intro exI[of _ "''```'' # butlast (split newline (content b)) @ [''```'']"] exI[of _ "[[]]"])
      (simp add: blockLines_def)
next
  case Quote
  with assms have c: "content b \<noteq> []" "\<not> isSpace (last (content b))"
    by (auto simp: canonical_def tight_def)
  have "solid [''> '' @ content b]"
    using c dash_not_space by (simp add: solid_def)
  then show ?thesis
    using Quote by (intro exI[of _ "[''> '' @ content b]"] exI[of _ "[[]]"]) (simp add: blockLines_def)
qed

lemma solid_prepend:
  "xs = l # ls \<Longrightarrow> l \<noteq> [] \<Longrightarrow> \<not> isSpace (hd l) \<Longrightarrow> solid L \<Longrightarrow> solid (xs @ L)"
  by (auto simp: solid_def)

lemma canonical_all_lines:
  assumes "list_all canonical bs" and "bs \<noteq> []" and "tight (last bs)"
  shows "\<exists>L sep. concat (map blockLines bs) = L @ sep \<and> solid L \<and> (sep = [] \<or> sep = [[]])"
  using assms
proof (induction bs)
  case Nil
  then show ?case by simp
next
  case (Cons b bs)
  show ?case
  proof (cases "bs = []")
    case True
    with Cons.prems have "canonical b" "tight b" by simp_all
    from canonical_lines[OF this] True show ?thesis by auto
  next
    case False
    with Cons obtain L sep' where r: "concat (map blockLines bs) = L @ sep'" "solid L"
      "sep' = [] \<or> sep' = [[]]"
      by auto
    from Cons.prems obtain l ls where f: "blockLines b = l # ls" "l \<noteq> []" "\<not> isSpace (hd l)"
      using canonical_first_line[of b] by auto
    have "concat (map blockLines (b # bs)) = (blockLines b @ L) @ sep'"
      using r(1) by simp
    moreover have "solid (blockLines b @ L)" using f r(2) by (rule solid_prepend)
    ultimately show ?thesis using r(3) by blast
  qed
qed

lemma split_no_sep: "l \<in> set (split d s) \<Longrightarrow> d \<notin> set l"
proof (induction s arbitrary: l)
  case Nil
  then show ?case by simp
next
  case (Cons c s)
  then show ?case
    by (cases "split d s") (auto split: if_splits)
qed

lemma split_no_sep_id: "d \<notin> set l \<Longrightarrow> split d l = [l]"
  by (induction l) auto

lemma split_line: "d \<notin> set l \<Longrightarrow> split d (l @ d # rest) = l # split d rest"
  by (induction l) auto

lemma split_snoc_sep: "split d (s @ [d]) = split d s @ [[]]"
proof (induction s)
  case Nil
  show ?case by simp
next
  case (Cons c s)
  then show ?case
    using split_nonempty[of d s] by (cases "split d s") auto
qed

lemma split_unlines:
  "\<forall>l\<in>set ls. newline \<notin> set l \<Longrightarrow> split newline (unlines ls @ r) = ls @ split newline r"
  by (induction ls) (simp_all add: unlines_Nil unlines_Cons split_line)

lemma canonical_no_newline:
  assumes "canonical b" and "l \<in> set (blockLines b)"
  shows "newline \<notin> set l"
proof (cases "btype b")
  case Heading
  with assms(1) have "list_all (\<lambda>c. \<not> isLineTerminator c) (content b)"
    by (auto simp: canonical_def)
  then have "newline \<notin> set (content b)"
    by (auto simp: list_all_iff isLineTerminator_def newline_def code_def)
  then show ?thesis
    using Heading assms(2) by (auto simp: blockLines_def newline_def)
next
  case Paragraph
  with assms show ?thesis by (auto simp: blockLines_def canonical_def plainLine_def)
next
  case List
  with assms(1) have c: "newline \<notin> set (content b)"
    and k: "listType b = Some Bullet \<and> listIndex b = None \<or>
            listType b = Some Numbered \<and> listIndex b = Some (Num 1)"
    by (auto simp: canonical_def)
  have p: "listPrefix (listType b) b = ''- '' \<or> listPrefix (listType b) b = ''1. ''"
    using k by (auto simp: listPrefix_def showInt_one)
  then show ?thesis
    using List assms(2) c by (auto simp: blockLines_def newline_def)
next
  case Code
  then show ?thesis
    using assms(2) split_no_sep[of l newline "content b"]
    by (auto simp: blockLines_def newline_def dest: in_set_butlastD)
next
  case Quote
  with assms show ?thesis by (auto simp: blockLines_def canonical_def newline_def)
qed

lemma trim_strip:
  assumes "X \<noteq> []" and "\<not> isSpace (hd X)" and "\<not> isSpace (last X)"
    and "\<forall>x\<in>set W. isSpace x"
  shows "trim (X @ W) = X"
proof -
  have 1: "dropWhile isSpace (X @ W) = X @ W"
    using assms(1,2) by (cases X) auto
  have "dropWhile isSpace (rev W @ rev X) = dropWhile isSpace (rev X)"
    using assms(4) by (simp add: dropWhile_append)
  also have "\<dots> = rev X"
    using assms(1,3) by (cases "rev X") (auto simp: hd_rev[symmetric] simp del: hd_rev)
  finally show ?thesis by (simp add: trim_def 1)
qed

lemma unlines_solid:
  assumes "solid L"
  shows "\<exists>X. unlines L = X @ [newline] \<and> X \<noteq> [] \<and> \<not> isSpace (hd X) \<and> \<not> isSpace (last X)"
proof -
  from assms obtain L' x where L: "L = L' @ [x]" and x: "x \<noteq> []" "\<not> isSpace (last x)"
    by (metis solid_def append_butlast_last_id)
  define X where "X = unlines L' @ x"
  have u: "unlines L = X @ [newline]"
    unfolding L X_def by (simp add: unlines_append unlines_Cons unlines_Nil)
  have ne: "X \<noteq> []" and la: "\<not> isSpace (last X)"
    unfolding X_def using x by simp_all
  have "hd X = hd (hd L)"
  proof (cases L')
    case Nil
    then show ?thesis unfolding X_def L by (simp add: unlines_Nil)
  next
    case (Cons y ys)
    with assms have "y \<noteq> []" unfolding L solid_def by simp
    then show ?thesis unfolding X_def L Cons by (simp add: unlines_Cons)
  qed
  then have "\<not> isSpace (hd X)" using assms by (simp add: solid_def)
  with u ne la show ?thesis by blast
qed

lemma runA_snoc_blank:
  "runA st (ls @ [[]]) = analyzeLine [[]] (runA st ls) (0, [])"
proof (induction ls arbitrary: st)
  case Nil
  show ?case by simp
next
  case (Cons l ls)
  show ?case
  proof (cases ls)
    case Nil
    have eq: "analyzeHeading (trim l) [l, []] 0 = analyzeHeading (trim l) [l] 0"
      by (simp add: analyzeHeading_def underline_Nil)
    have "analyzeLine [l, []] st (0, l) = analyzeLine [l] st (0, l)"
      by (simp only: analyzeLine_def fst_conv snd_conv Let_def eq)
    then show ?thesis using Nil by simp
  next
    case (Cons l' ls')
    then show ?thesis using Cons.IH by simp
  qed
qed

lemma pushCurrent_blank:
  assumes "openKinds s" and "\<not> inCodeBlock (analyzeLine lines s (i, []))"
  shows "pushCurrent (analyzeLine lines s (i, [])) = pushCurrent s"
proof -
  have nc: "\<not> inCodeBlock s"
    using assms(2) by (auto simp: analyzeLine_def trim_Nil startsWith_def split: if_splits)
  show ?thesis
    using assms(1) by (auto simp: blank_step[OF nc] trim_Nil pushCurrent_def openKinds_def
        split: option.splits)
qed

lemma analyze_empty: "analyzeTextStructure [] = []"
  by code_simp

text \<open>The analyzer reads the rendering of canonical blocks back as the same blocks,
  unless the last of them is a list item or a quote with the empty text.\<close>

lemma tight_round_trip:
  assumes "list_all canonical bs" and "bs = [] \<or> tight (last bs)"
  shows "analyzeTextStructure (blocksToMarkdown bs) = bs"
proof (cases "bs = []")
  case True
  then show ?thesis
    by (simp add: blocksToMarkdown_def initRender_def trim_Nil analyze_empty)
next
  case False
  obtain L sep where A: "concat (map blockLines bs) = L @ sep" and sol: "solid L"
    and sep: "sep = [] \<or> sep = [[]]"
    using canonical_all_lines[OF assms(1) False] assms(2) False by blast
  obtain X where X: "unlines L = X @ [newline]" "X \<noteq> []" "\<not> isSpace (hd X)"
    "\<not> isSpace (last X)"
    using unlines_solid[OF sol] by blast
  have md: "markdown (foldl renderBlock initRender bs) = X @ ([newline] @ unlines sep)"
    using canonical_render_all[OF assms(1), of initRender] A X(1)
    by (simp add: initRender_def unlines_append)
  have ws: "\<forall>x\<in>set ([newline] @ unlines sep). isSpace x"
    using sep newline_isSpace by (auto simp: unlines_def)
  have R: "blocksToMarkdown bs = X"
    unfolding blocksToMarkdown_def md using X(2,3,4) ws by (rule trim_strip)
  have nn: "\<forall>l\<in>set L. newline \<notin> set l"
  proof
    fix l assume "l \<in> set L"
    then have "l \<in> set (concat (map blockLines bs))" using A by simp
    then obtain b where "b \<in> set bs" "l \<in> set (blockLines b)" by auto
    with assms(1) show "newline \<notin> set l"
      using canonical_no_newline by (auto simp: list_all_iff)
  qed
  have "split newline (unlines L) = L @ [[]]"
    using split_unlines[OF nn, of "[]"] by simp
  then have "split newline (X @ [newline]) = L @ [[]]" using X(1) by simp
  then have sp: "split newline X = L"
    by (simp add: split_snoc_sep)
  have run: "runA initState (L @ sep) = initState\<lparr>blocks := bs\<rparr>"
    using blocks_run[OF assms(1), of initState "[]"] A by (simp add: initState_def)
  have fin: "pushCurrent (initState\<lparr>blocks := bs\<rparr>) = bs"
    by (simp add: pushCurrent_def initState_def)
  have "pushCurrent (runA initState L) = bs"
  proof (cases "sep = []")
    case True
    with run fin show ?thesis by simp
  next
    case False
    with sep have s: "sep = [[]]" by simp
    have ok: "openKinds (runA initState L)"
      using runLines_openKinds[OF openKinds_init, of L "enumerate 0 L"]
      by (simp add: runLines_runA)
    have e: "analyzeLine [[]] (runA initState L) (0, []) = initState\<lparr>blocks := bs\<rparr>"
      using run s by (simp add: runA_snoc_blank)
    then have "\<not> inCodeBlock (analyzeLine [[]] (runA initState L) (0, []))"
      by (simp add: initState_def)
    from pushCurrent_blank[OF ok this] e fin show ?thesis by simp
  qed
  then show ?thesis
    unfolding analyzeTextStructure_def Let_def R sp by (simp add: runLines_runA)
qed

text \<open>When the last block is a quote with the empty text, the rendering ends with the
  bare quote marker, which is read back as the same quote.  When it is a list item with
  the empty text, the rendering ends with the bare list marker, which is read back as a
  paragraph, and that paragraph is rendered as the same marker.\<close>

lemma canonical_first_char:
  assumes "list_all canonical bs" and "bs \<noteq> []"
  shows "\<exists>l ls. concat (map blockLines bs) = l # ls \<and> l \<noteq> [] \<and> \<not> isSpace (hd l)"
proof (cases bs)
  case Nil
  with assms(2) show ?thesis by simp
next
  case (Cons b bs')
  with assms(1) obtain l ls where "blockLines b = l # ls" "l \<noteq> []" "\<not> isSpace (hd l)"
    using canonical_first_line[of b] by auto
  then show ?thesis using Cons by simp
qed

lemma render_last:
  assumes "list_all canonical bs" and "canonical b"
    and "unlines (blockLines b) = y @ W"
    and "y \<noteq> []" and "\<not> isSpace (hd y)" and "\<not> isSpace (last y)"
    and "\<forall>x\<in>set W. isSpace x"
  shows "blocksToMarkdown (bs @ [b]) = unlines (concat (map blockLines bs)) @ y"
proof -
  define X where "X = unlines (concat (map blockLines bs)) @ y"
  have "list_all canonical (bs @ [b])" using assms(1,2) by simp
  from canonical_render_all[OF this, of initRender]
  have md: "markdown (foldl renderBlock initRender (bs @ [b])) = X @ W"
    using assms(3) by (simp add: initRender_def unlines_append X_def)
  have ne: "X \<noteq> []" and la: "\<not> isSpace (last X)"
    unfolding X_def using assms(4,6) by simp_all
  have hd: "\<not> isSpace (hd X)"
  proof (cases "bs = []")
    case True
    then show ?thesis unfolding X_def using assms(5) by (simp add: unlines_Nil)
  next
    case False
    then obtain l ls where "concat (map blockLines bs) = l # ls" "l \<noteq> []" "\<not> isSpace (hd l)"
      using canonical_first_char[OF assms(1)] by blast
    then show ?thesis unfolding X_def by (simp add: unlines_Cons)
  qed
  have "trim (X @ W) = X" using ne hd la assms(7) by (rule trim_strip)
  then show ?thesis unfolding blocksToMarkdown_def md X_def .
qed

lemma analyze_last_line:
  assumes "list_all canonical bs" and "newline \<notin> set y"
  shows "analyzeTextStructure (unlines (concat (map blockLines bs)) @ y) =
         pushCurrent (analyzeLine [y]
           \<lparr>blocks = bs, currentBlock = None, inCodeBlock = False, codeBlockContent = []\<rparr> (0, y))"
proof -
  define L where "L = concat (map blockLines bs)"
  have nn: "\<forall>l\<in>set L. newline \<notin> set l"
  proof
    fix l assume "l \<in> set L"
    then obtain b where "b \<in> set bs" "l \<in> set (blockLines b)" unfolding L_def by auto
    with assms(1) show "newline \<notin> set l"
      using canonical_no_newline by (auto simp: list_all_iff)
  qed
  have sp: "split newline (unlines L @ y) = L @ [y]"
    using split_unlines[OF nn, of y] assms(2) by (simp add: split_no_sep_id)
  have "runA initState (L @ [y]) =
        runA \<lparr>blocks = bs, currentBlock = None, inCodeBlock = False, codeBlockContent = []\<rparr> [y]"
    unfolding L_def using blocks_run[OF assms(1), of initState "[y]"] by (simp add: initState_def)
  then show ?thesis
    unfolding analyzeTextStructure_def Let_def L_def[symmetric] sp by (simp add: runLines_runA)
qed

lemma empty_quote_round_trip:
  assumes "list_all canonical bs" and "canonical b" and "btype b = Quote" and "content b = []"
  shows "analyzeTextStructure (blocksToMarkdown (bs @ [b])) = bs @ [b]"
proof -
  have b: "b = mkBlock Quote []"
    using assms(2,3,4) by (simp add: canonical_def mkBlock_def noMeta_def)
  have u: "unlines (blockLines b) = ''>'' @ ('' '' @ [newline, newline])"
    using assms(3,4) by (simp add: blockLines_def unlines_def)
  have r: "blocksToMarkdown (bs @ [b]) = unlines (concat (map blockLines bs)) @ ''>''"
    using assms(1,2) u
    by (rule render_last) (simp_all add: dash_not_space space_isSpace newline_isSpace)
  have "newline \<notin> set ''>''" by (simp add: newline_def)
  from analyze_last_line[OF assms(1) this] show ?thesis
    unfolding r by (simp add: bare_quote_step pushCurrent_def b)
qed

lemma marker_plain: "plainLine ''-''" "plainLine ''1.''"
  by code_simp+

lemma empty_item_round_trip:
  assumes "list_all canonical bs" and "canonical b" and "btype b = List" and "content b = []"
  shows "blocksToMarkdown (analyzeTextStructure (blocksToMarkdown (bs @ [b]))) =
         blocksToMarkdown (bs @ [b])"
proof -
  from assms(2,3) have "listType b = Some Bullet \<and> listIndex b = None \<or>
            listType b = Some Numbered \<and> listIndex b = Some (Num 1)"
    by (auto simp: canonical_def)
  then have "listPrefix (listType b) b = ''-'' @ '' '' \<or> listPrefix (listType b) b = ''1.'' @ '' ''"
    by (auto simp: listPrefix_def showInt_one)
  then obtain m where m: "listPrefix (listType b) b = m @ '' ''" "m = ''-'' \<or> m = ''1.''"
    by blast
  have pl: "plainLine m" using m(2) marker_plain by auto
  have ends: "m \<noteq> []" "\<not> isSpace (hd m)" "\<not> isSpace (last m)"
    using m(2) by (auto simp: isSpace_def code_def)
  have nl: "newline \<notin> set m" using m(2) by (auto simp: newline_def)
  define p where "p = mkBlock Paragraph m"
  have cp: "canonical p" using pl by (simp add: canonical_def p_def mkBlock_def noMeta_def)
  have u: "unlines (blockLines b) = m @ ('' '' @ [newline])"
    using assms(3,4) m(1) by (simp add: blockLines_def unlines_def)
  have r: "blocksToMarkdown (bs @ [b]) = unlines (concat (map blockLines bs)) @ m"
    using assms(1,2) u ends
    by (rule render_last) (simp add: space_isSpace newline_isSpace)
  have up: "unlines (blockLines p) = m @ [newline, newline]"
    by (simp add: blockLines_def unlines_def p_def mkBlock_def)
  have rp: "blocksToMarkdown (bs @ [p]) = unlines (concat (map blockLines bs)) @ m"
    using assms(1) cp up ends
    by (rule render_last) (simp add: newline_isSpace)
  have "\<not> setextNext [m] 0" by (simp add: setextNext_def)
  then have "analyzeLine [m]
        \<lparr>blocks = bs, currentBlock = None, inCodeBlock = False, codeBlockContent = []\<rparr> (0, m) =
      \<lparr>blocks = bs, currentBlock = Some p, inCodeBlock = False, codeBlockContent = []\<rparr>"
    unfolding p_def using pl by (simp add: plain_line_step)
  then have "analyzeTextStructure (blocksToMarkdown (bs @ [b])) = bs @ [p]"
    unfolding r using analyze_last_line[OF assms(1) nl] by (simp add: pushCurrent_def)
  then show ?thesis using r rp by simp
qed

text \<open>Rendering the analysis of the rendering of canonical blocks gives the same
  rendering.\<close>

lemma canonical_round_trip:
  assumes "list_all canonical bs"
  shows "blocksToMarkdown (analyzeTextStructure (blocksToMarkdown bs)) = blocksToMarkdown bs"
proof (cases "bs = [] \<or> tight (last bs)")
  case True
  with assms have "analyzeTextStructure (blocksToMarkdown bs) = bs" by (rule tight_round_trip)
  then show ?thesis by simp
next
  case False
  then have ne: "bs \<noteq> []" and nt: "\<not> tight (last bs)" by simp_all
  define bs0 where "bs0 = butlast bs"
  define b where "b = last bs"
  have bs: "bs = bs0 @ [b]" unfolding bs0_def b_def using ne by simp
  with assms have c: "list_all canonical bs0" "canonical b" by simp_all
  from nt have e: "content b = []" and k: "btype b = List \<or> btype b = Quote"
    by (auto simp: tight_def b_def)
  from k show ?thesis
  proof
    assume "btype b = List"
    from empty_item_round_trip[OF c this e] show ?thesis unfolding bs .
  next
    assume "btype b = Quote"
    from empty_quote_round_trip[OF c this e] show ?thesis unfolding bs by simp
  qed
qed

text \<open>
  Claim C4, as the code has it.  Four texts without any code block on which rendering
  after analysing is not idempotent.  Two quote lines are merged into one quote block
  whose content has two lines; the renderer prefixes only the first of them, and the
  second analysis reads the second line as a paragraph.  The lines \<open>*\<close> and \<open>foo\<close> are
  joined into the paragraph \<open>* foo\<close>, which is read back as a list item and rendered
  with a dash.  The lines \<open>rank by\<close> and \<open>x\<close> are joined into a paragraph that is read
  back as a heading.  The line with a carriage return is a heading by title case, and
  the heading pattern reads its rendering back only up to the carriage return.
\<close>

theorem joined_lines_not_idempotent:
  "analyzeTextStructure quoteText = [mkBlock Quote (''a'' @ [newline] @ ''b'')] \<and>
   transform quoteText = ''> a'' @ [newline] @ ''b'' \<and>
   transform (transform quoteText) = ''> a'' @ [newline, newline] @ ''b'' \<and>
   analyzeTextStructure starText = [mkBlock Paragraph ''* foo''] \<and>
   transform starText = ''* foo'' \<and>
   transform (transform starText) = ''- foo'' \<and>
   analyzeTextStructure rankText = [mkBlock Paragraph ''rank by x''] \<and>
   transform rankText = ''rank by x'' \<and>
   transform (transform rankText) = ''### rank by x'' \<and>
   analyzeTextStructure returnText = [headingBlock returnText (Some 2)] \<and>
   transform returnText = ''## '' @ returnText \<and>
   transform (transform returnText) = ''## Aa''"
  by code_simp

text \<open>The blocks the analyzer produces.\<close>

lemma produced_stable_canonical: "produced b \<Longrightarrow> stable b \<Longrightarrow> canonical b"
  by (cases "btype b") (auto simp: produced_def stable_def canonical_def plainLine_def)

lemma trim_idem: "trim (trim s) = trim s"
proof (cases "trim s = []")
  case True
  then show ?thesis by (simp add: trim_Nil)
next
  case False
  then show ?thesis using trim_hd[OF False] trim_last[OF False] by (intro trim_id)
qed

lemma set_trim: "set (trim s) \<subseteq> set s"
proof -
  have "set (trim s) \<subseteq> set (dropWhile isSpace s)"
    unfolding trim_def using set_dropWhileD[of _ isSpace "rev (dropWhile isSpace s)"] by auto
  then show ?thesis using set_dropWhileD[of _ isSpace s] by blast
qed

lemma codeOk_Nil: "codeOk []"
  by (simp add: codeOk_def trim_Nil startsWith_def)

lemma codeOk_append:
  assumes "codeOk c" and "newline \<notin> set l" and "\<not> startsWith (trim l) ''```''"
  shows "codeOk (c @ l @ [newline])"
proof -
  define cl where "cl = butlast (split newline c)"
  have c: "c = unlines cl"
    using assms(1) unfolding codeOk_def cl_def by (simp add: unlines_butlast_split)
  have nn: "\<forall>x\<in>set (cl @ [l]). newline \<notin> set x"
    using assms(2) split_no_sep[of _ newline c] unfolding cl_def
    by (auto dest: in_set_butlastD)
  have nf: "list_all (\<lambda>l. \<not> startsWith (trim l) ''```'') cl"
    using assms(1) unfolding codeOk_def cl_def by (auto simp: list_all_iff dest: in_set_butlastD)
  have "c @ l @ [newline] = unlines (cl @ [l])"
    unfolding c by (simp add: unlines_append unlines_Cons unlines_Nil)
  then have "split newline (c @ l @ [newline]) = (cl @ [l]) @ [[]]"
    using split_unlines[OF nn, of "[]"] by simp
  then show ?thesis
    unfolding codeOk_def using nf assms(3) by (simp add: trim_Nil startsWith_def)
qed

lemma firstPattern_level:
  "firstPattern metadataPatterns t = Some l \<Longrightarrow> 1 \<le> l \<and> l \<le> 6"
  by (auto simp: metadataPatterns_def split: if_splits)

lemma heading_produced:
  assumes "isHeading (analyzeHeading (trim line) lines i)" and "trim line \<noteq> []"
  shows "produced (headingBlock (headingText (analyzeHeading (trim line) lines i))
                     (hlevel (analyzeHeading (trim line) lines i)))"
proof (cases "atxMatch (trim line)")
  case (Some ng)
  obtain n g where ng: "ng = (n, g)" by (cases ng)
  from atxMatch_facts[of line n g] Some ng
  have f: "1 \<le> n" "n \<le> 6" "g \<noteq> []" "\<not> isSpace (hd g)" by simp_all
  have "trim g \<noteq> []" using f(3,4) by (rule trim_nonempty)
  then show ?thesis
    using Some ng f(1,2)
    by (simp add: analyzeHeading_def produced_def headingBlock_def trim_idem)
next
  case None
  have t: "trim (trim line) \<noteq> []" using assms(2) by (simp add: trim_idem)
  show ?thesis
    using None assms(1) t firstPattern_level[of "trim line"]
    by (auto simp: analyzeHeading_def produced_def headingBlock_def trim_idem
             split: if_splits option.splits)
qed

lemma quote_produced:
  assumes "startsWith (trim line) ''>''"
  shows "produced (mkBlock Quote
           (case tl (trim line) of [] \<Rightarrow> [] | c # r \<Rightarrow> if isSpace c then r else c # r))"
proof -
  define t where "t = trim line"
  from assms obtain r where t: "t = CHR ''>'' # r"
    unfolding t_def startsWith_def by (cases "trim line") auto
  have ne: "trim line \<noteq> []" using t t_def by simp
  have la: "\<not> isSpace (last t)" unfolding t_def using ne by (rule trim_last)
  define q where "q = (case r of [] \<Rightarrow> [] | c # r' \<Rightarrow> if isSpace c then r' else c # r')"
  have "q = [] \<or> \<not> isSpace (last q)"
  proof (cases r)
    case Nil
    then show ?thesis by (simp add: q_def)
  next
    case (Cons c r')
    show ?thesis
    proof (cases "q = []")
      case False
      then have "last q = last t"
        unfolding q_def t Cons by (auto split: if_splits)
      with la show ?thesis by simp
    qed simp
  qed
  then show ?thesis
    unfolding t_def[symmetric] t q_def[symmetric]
    by (auto simp: produced_def mkBlock_def noMeta_def q_def)
qed

lemma produced_quote_append:
  assumes "produced b" and "btype b = Quote"
  shows "produced (b\<lparr>content := content b @ [newline] @ q\<rparr>)"
  using assms by (simp add: produced_def noMeta_def)

lemma skipWs_rest: "set (skipWs s) \<subseteq> set s"
  unfolding skipWs_def using set_dropWhileD by fastforce

lemma ws1_rest: "ws1 s = Some r \<Longrightarrow> set r \<subseteq> set s"
  using skipWs_rest by (fastforce simp: ws1_def split: list.splits if_splits)

lemma digits1_rest: "digits1 s = Some r \<Longrightarrow> set r \<subseteq> set s"
  by (auto simp: digits1_def split: list.splits if_splits dest: set_dropWhileD)

lemma oneOf_rest: "oneOf cls s = Some r \<Longrightarrow> set r \<subseteq> set s"
  by (auto simp: oneOf_def split: list.splits if_splits)

lemma oneSat_rest: "oneSat P s = Some r \<Longrightarrow> set r \<subseteq> set s"
  by (auto simp: oneSat_def split: list.splits if_splits)

lemma matchPattern_rest:
  assumes "matchPattern p line = Some (g, r)"
  shows "set r \<subseteq> set line"
proof (cases p)
  case BulletPat
  with assms obtain c r0 where "skipWs line = c # r0" "ws1 r0 = Some r"
    by (auto simp: Option.bind_eq_Some_conv split: list.splits if_splits)
  then show ?thesis using skipWs_rest[of line] ws1_rest[of r0 r] by auto
next
  case NumberedPat
  with assms obtain r1 r2 where "digits1 (skipWs line) = Some r1" "oneOf ''.)'' r1 = Some r2"
    "ws1 r2 = Some r"
    by (auto simp: Option.bind_eq_Some_conv)
  then show ?thesis
    using skipWs_rest[of line] digits1_rest[of "skipWs line" r1] oneOf_rest[of _ r1 r2]
      ws1_rest[of r2 r] by blast
next
  case LetteredPat
  with assms obtain r1 r2 where "oneSat isAlpha (skipWs line) = Some r1"
    "oneOf ''.)'' r1 = Some r2" "ws1 r2 = Some r"
    by (auto simp: Option.bind_eq_Some_conv)
  then show ?thesis
    using skipWs_rest[of line] oneSat_rest[of _ "skipWs line" r1] oneOf_rest[of _ r1 r2]
      ws1_rest[of r2 r] by blast
next
  case ParenPat
  with assms obtain r1 r2 r3 where "oneOf ''('' (skipWs line) = Some r1"
    "digits1 r1 = Some r2" "oneOf '')'' r2 = Some r3" "ws1 r3 = Some r"
    by (auto simp: Option.bind_eq_Some_conv)
  then show ?thesis
    using skipWs_rest[of line] oneOf_rest[of _ "skipWs line" r1] digits1_rest[of r1 r2]
      oneOf_rest[of _ r2 r3] ws1_rest[of r3 r] by blast
qed

lemma detectLoop_match:
  "detectLoop ps line = Some m \<Longrightarrow> \<exists>g r. matchPattern (lm_pattern m) line = Some (g, r)"
  by (induction ps) (auto split: option.splits)

lemma list_produced:
  assumes "detectListType line = Some m" and "newline \<notin> set line"
  shows "produced (listBlock (trim (removePattern (lm_pattern m) line)) (lm_type m)
           (if lm_type m = Numbered then Some (parseInt (indexOrOne (lm_index m))) else None))"
proof -
  obtain g r where mp: "matchPattern (lm_pattern m) line = Some (g, r)"
    using assms(1) detectLoop_match unfolding detectListType_def by blast
  then have rp: "removePattern (lm_pattern m) line = r" by (simp add: removePattern_def)
  have "set (trim r) \<subseteq> set line"
    using set_trim[of r] matchPattern_rest[OF mp] by blast
  then have nn: "newline \<notin> set (trim r)" using assms(2) by blast
  show ?thesis
  proof (cases "lm_type m")
    case Bullet
    then show ?thesis unfolding rp using nn by (simp add: produced_def listBlock_def trim_idem)
  next
    case Numbered
    then show ?thesis
      unfolding rp using nn numbered_index_is_one[OF assms(1) Numbered]
      by (simp add: produced_def listBlock_def trim_idem)
  qed
qed

lemma paragraph_new_produced:
  assumes "trim line \<noteq> []" and "\<not> startsWith (trim line) ''```''"
    and "\<not> startsWith (trim line) ''>''" and "newline \<notin> set line"
  shows "produced (mkBlock Paragraph (trim line))"
  using assms set_trim[of line]
  by (auto simp: produced_def mkBlock_def noMeta_def trim_idem)

lemma not_fence_append:
  assumes "c \<noteq> []" and "\<not> startsWith c ''```''"
  shows "\<not> startsWith (c @ CHR '' '' # t) ''```''"
proof (cases c)
  case Nil
  with assms show ?thesis by simp
next
  case c1: (Cons a c')
  show ?thesis
  proof (cases c')
    case Nil
    with c1 show ?thesis by (simp add: startsWith_def)
  next
    case c2: (Cons b c'')
    show ?thesis
    proof (cases c'')
      case Nil
      with c1 c2 show ?thesis by (simp add: startsWith_def)
    next
      case (Cons d c''')
      with c1 c2 assms(2) show ?thesis by (simp add: startsWith_def)
    qed
  qed
qed

lemma paragraph_append_produced:
  assumes "produced b" and "btype b = Paragraph" and "trim line \<noteq> []"
    and "newline \<notin> set line"
  shows "produced (b\<lparr>content := content b @ '' '' @ trim line\<rparr>)"
proof -
  define c where "c = content b"
  define t where "t = trim line"
  from assms(1,2) have p: "noMeta b" "trim c = c" "c \<noteq> []" "newline \<notin> set c"
    "\<not> startsWith c ''```''" "\<not> startsWith c ''>''"
    by (auto simp: produced_def c_def)
  have t: "t \<noteq> []" "\<not> isSpace (last t)" "newline \<notin> set t"
    using assms(3,4) trim_last[of line] set_trim[of line] by (auto simp: t_def)
  have 1: "trim (c @ '' '' @ t) = c @ '' '' @ t"
    using p(2,3) t(1,2) trim_fixed_ends(1)[OF p(2,3)] by (intro trim_id) simp_all
  have 2: "\<not> startsWith (c @ '' '' @ t) ''```''"
    using not_fence_append[OF p(3,5)] by simp
  have 3: "\<not> startsWith (c @ '' '' @ t) ''>''"
    using p(3,6) by (cases c) (simp_all add: startsWith_def)
  have 4: "newline \<notin> set (c @ '' '' @ t)"
    using p(4) t(3) by (simp add: newline_def)
  show ?thesis
    using assms(2) p(1) 1 2 3 4 p(3)
    unfolding c_def[symmetric] t_def[symmetric]
    by (simp add: produced_def noMeta_def)
qed

lemma stateOk_init: "stateOk initState"
  by (simp add: stateOk_def initState_def codeOk_Nil)

lemma produced_code: "codeOk c \<Longrightarrow> produced (mkBlock Code c)"
  by (simp add: produced_def mkBlock_def noMeta_def)

lemma stateOk_push:
  assumes "stateOk st"
  shows "list_all produced (pushCurrent st)"
  using assms by (auto simp: stateOk_def pushCurrent_def split: option.splits)

lemma analyzeLine_stateOk:
  assumes ok: "stateOk st" and nn: "newline \<notin> set line"
  shows "stateOk (analyzeLine lines st (i, line))"
proof -
  define t where "t = trim line"
  from ok have bl: "list_all produced (blocks st)" and cc: "codeOk (codeBlockContent st)"
    and cur: "\<And>b. currentBlock st = Some b \<Longrightarrow> produced b \<and> (btype b = Paragraph \<or> btype b = Quote)"
    by (auto simp: stateOk_def)
  have pc: "list_all produced (pushCurrent st)" using ok by (rule stateOk_push)
  consider (fence) "startsWith t ''```''"
    | (code) "\<not> startsWith t ''```''" "inCodeBlock st"
    | (blank) "\<not> startsWith t ''```''" "\<not> inCodeBlock st" "t = []"
    | (quote) "\<not> startsWith t ''```''" "\<not> inCodeBlock st" "t \<noteq> []" "startsWith t ''>''"
    | (list) m where "\<not> startsWith t ''```''" "\<not> inCodeBlock st" "t \<noteq> []"
        "\<not> startsWith t ''>''" "detectListType line = Some m"
    | (head) "\<not> startsWith t ''```''" "\<not> inCodeBlock st" "t \<noteq> []"
        "\<not> startsWith t ''>''" "detectListType line = None"
        "isHeading (analyzeHeading t lines i)"
    | (para) "\<not> startsWith t ''```''" "\<not> inCodeBlock st" "t \<noteq> []"
        "\<not> startsWith t ''>''" "detectListType line = None"
        "\<not> isHeading (analyzeHeading t lines i)"
    by (cases "detectListType line") auto
  then show ?thesis
  proof cases
    case fence
    then show ?thesis
      unfolding analyzeLine_def Let_def fst_conv snd_conv t_def[symmetric]
      using bl cc cur produced_code[OF cc]
      by (auto simp: stateOk_def codeOk_Nil split: option.splits)
  next
    case code
    have "codeOk (codeBlockContent st @ line @ [newline])"
      using cc nn code(1) unfolding t_def by (rule codeOk_append)
    with code show ?thesis
      unfolding analyzeLine_def Let_def fst_conv snd_conv t_def[symmetric]
      using bl cur by (auto simp: stateOk_def split: option.splits)
  next
    case blank
    then show ?thesis
      unfolding analyzeLine_def Let_def fst_conv snd_conv t_def[symmetric]
      using bl cc cur by (auto simp: stateOk_def split: option.splits)
  next
    case quote
    have q: "produced (mkBlock Quote
           (case tl t of [] \<Rightarrow> [] | c # r \<Rightarrow> if isSpace c then r else c # r))"
      unfolding t_def using quote(4) unfolding t_def by (rule quote_produced)
    have bq: "btype (mkBlock Quote x) = Quote" for x by (simp add: mkBlock_def)
    show ?thesis
    proof (cases "currentBlock st")
      case None
      with quote q bq show ?thesis
        unfolding analyzeLine_def Let_def fst_conv snd_conv t_def[symmetric]
        using bl cc by (simp add: stateOk_def)
    next
      case (Some b)
      show ?thesis
      proof (cases "btype b = Quote")
        case True
        have "produced (b\<lparr>content := content b @ [newline] @
            (case tl t of [] \<Rightarrow> [] | c # r \<Rightarrow> if isSpace c then r else c # r)\<rparr>)"
          using cur[OF Some] True by (intro produced_quote_append) simp_all
        with quote Some True show ?thesis
          unfolding analyzeLine_def Let_def fst_conv snd_conv t_def[symmetric]
          using bl cc by (simp add: stateOk_def)
      next
        case False
        with quote Some q bq show ?thesis
          unfolding analyzeLine_def Let_def fst_conv snd_conv t_def[symmetric]
          using bl cc cur[OF Some] by (simp add: stateOk_def)
      qed
    qed
  next
    case (list m)
    have lp: "produced (listBlock (trim (removePattern (lm_pattern m) line)) (lm_type m)
           (if lm_type m = Numbered then Some (parseInt (indexOrOne (lm_index m))) else None))"
      using list(5) nn by (rule list_produced)
    show ?thesis
    proof (cases "currentBlock st")
      case None
      with list lp show ?thesis
        unfolding analyzeLine_def Let_def fst_conv snd_conv t_def[symmetric]
        using bl cc by (simp add: stateOk_def)
    next
      case (Some b)
      with list lp show ?thesis
        unfolding analyzeLine_def Let_def fst_conv snd_conv t_def[symmetric]
        using bl cc cur[OF Some] by (auto simp: stateOk_def)
    qed
  next
    case head
    have hp: "produced (headingBlock (headingText (analyzeHeading t lines i))
                     (hlevel (analyzeHeading t lines i)))"
      unfolding t_def using head(6,3) unfolding t_def by (rule heading_produced)
    have rc: "remainingContent (analyzeHeading t lines i) = []"
      using head(6) by (auto simp: analyzeHeading_def split: option.splits if_splits)
    from head hp rc show ?thesis
      unfolding analyzeLine_def Let_def fst_conv snd_conv t_def[symmetric]
      using pc cc by (simp add: stateOk_def)
  next
    case para
    have np: "produced (mkBlock Paragraph t)"
      unfolding t_def using para(3,1,4) nn unfolding t_def by (rule paragraph_new_produced)
    have bp: "btype (mkBlock Paragraph x) = Paragraph" for x by (simp add: mkBlock_def)
    show ?thesis
    proof (cases "currentBlock st")
      case None
      with para np bp show ?thesis
        unfolding analyzeLine_def Let_def fst_conv snd_conv t_def[symmetric]
        using bl cc by (simp add: stateOk_def)
    next
      case (Some b)
      show ?thesis
      proof (cases "btype b = Paragraph")
        case True
        have "produced (b\<lparr>content := content b @ '' '' @ t\<rparr>)"
          unfolding t_def using cur[OF Some] True para(3) nn unfolding t_def
          by (intro paragraph_append_produced) simp_all
        with para Some True show ?thesis
          unfolding analyzeLine_def Let_def fst_conv snd_conv t_def[symmetric]
          using bl cc by (simp add: stateOk_def)
      next
        case False
        with para Some np bp show ?thesis
          unfolding analyzeLine_def Let_def fst_conv snd_conv t_def[symmetric]
          using bl cc cur[OF Some] by (simp add: stateOk_def)
      qed
    qed
  qed
qed

lemma runLines_stateOk:
  assumes "stateOk st" and "\<forall>il\<in>set ils. newline \<notin> set (snd il)"
  shows "stateOk (runLines lines st ils)"
  using assms(2)
proof (induction ils rule: rev_induct)
  case Nil
  show ?case using assms(1) by (simp add: runLines_Nil)
next
  case (snoc il ils)
  then have "stateOk (runLines lines st ils)" "newline \<notin> set (snd il)" by simp_all
  then have "stateOk (analyzeLine lines (runLines lines st ils) (fst il, snd il))"
    by (rule analyzeLine_stateOk)
  then show ?case by (simp add: runLines_snoc)
qed

lemma analyze_produced: "list_all produced (analyzeTextStructure text)"
proof -
  have "\<forall>il\<in>set (enumerate 0 (split newline text)). newline \<notin> set (snd il)"
    using split_no_sep[of _ newline "text"] by (auto simp: enumerate_eq_zip dest: set_zip_rightD)
  from runLines_stateOk[OF stateOk_init this] show ?thesis
    unfolding analyzeTextStructure_def Let_def by (rule stateOk_push)
qed

text \<open>
  Claim C4, amended.  Rendering after analysing is idempotent on every text in whose
  analysis no quote block has a text of more than one line, no heading text contains
  a line terminator (a carriage return; in the source's alphabet also U+2028 and
  U+2029, which the code units of the model do not include), and the text of every
  paragraph, classified alone, is neither a list item nor a heading.  Nothing is asked
  of list items and of code blocks, and the text of a quote or of a list item may be
  empty.
\<close>

theorem stable_idempotent:
  assumes "list_all stable (analyzeTextStructure text)"
  shows "transform (transform text) = transform text"
proof -
  have "list_all canonical (analyzeTextStructure text)"
    using assms analyze_produced[of "text"] produced_stable_canonical
    by (auto simp: list_all_iff)
  then have "blocksToMarkdown (analyzeTextStructure (blocksToMarkdown (analyzeTextStructure text))) =
             blocksToMarkdown (analyzeTextStructure text)"
    by (rule canonical_round_trip)
  then show ?thesis by (simp add: transform_def)
qed

theorem stable_idempotent_witness:
  "list_all stable (analyzeTextStructure mixedText) \<and>
   map btype (analyzeTextStructure mixedText) =
     [Heading, Paragraph, List, List, Code, Quote, Heading] \<and>
   transform (transform mixedText) = transform mixedText \<and>
   list_all stable (analyzeTextStructure sparseText) \<and>
   map content (analyzeTextStructure sparseText) = [[], ''some text'', [], []] \<and>
   map btype (analyzeTextStructure sparseText) = [Quote, Paragraph, List, List] \<and>
   transform (transform sparseText) = transform sparseText"
proof -
  have h: "list_all stable (analyzeTextStructure mixedText)"
    by code_simp
  have l: "map btype (analyzeTextStructure mixedText) =
     [Heading, Paragraph, List, List, Code, Quote, Heading]"
    by code_simp
  have h': "list_all stable (analyzeTextStructure sparseText)"
    by code_simp
  have l': "map content (analyzeTextStructure sparseText) = [[], ''some text'', [], []]"
    "map btype (analyzeTextStructure sparseText) = [Quote, Paragraph, List, List]"
    by code_simp+
  from stable_idempotent[OF h] stable_idempotent[OF h'] h l h' l' show ?thesis by blast
qed

section \<open>The asterisks and fence markers of the output\<close>

lemma countChar_append: "countChar d (a @ b) = countChar d a + countChar d b"
  by (simp add: countChar_def)

lemma countChar_Cons: "countChar d (c # s) = (if c = d then Suc (countChar d s) else countChar d s)"
  by (simp add: countChar_def)

lemma countChar_Nil: "countChar d [] = 0"
  by (simp add: countChar_def)

lemma countFences_skip:
  "c \<noteq> CHR 0x60 \<Longrightarrow> countFences (c # s) = countFences s"
  "CHR 0x60 \<noteq> c \<Longrightarrow> countFences (c # s) = countFences s"
proof -
  have "countFences (c # s) = countFences s" if "c \<noteq> CHR 0x60"
  proof (cases s)
    case Nil
    then show ?thesis by simp
  next
    case (Cons x xs)
    then show ?thesis using that by (cases xs) simp_all
  qed
  then show "c \<noteq> CHR 0x60 \<Longrightarrow> countFences (c # s) = countFences s"
    and "CHR 0x60 \<noteq> c \<Longrightarrow> countFences (c # s) = countFences s"
    by auto
qed

lemma countFences_skip2: "c \<noteq> CHR 0x60 \<Longrightarrow> countFences (x # c # s) = countFences s"
  by (cases s) (simp_all add: countFences_skip)

lemma countFences_sep:
  "c \<noteq> CHR 0x60 \<Longrightarrow> countFences (a @ c # b) = countFences a + countFences b"
proof (induction a rule: countFences.induct)
  case (1 x y z r)
  then show ?case by simp
qed (cases b; simp add: countFences_skip countFences_skip2)+


lemma space_not_mark: "isSpace c \<Longrightarrow> c \<noteq> CHR 0x60 \<and> c \<noteq> CHR ''*''"
  by (auto simp: isSpace_def code_def)

lemma digit_not_mark: "isDigit c \<Longrightarrow> c \<noteq> CHR 0x60 \<and> c \<noteq> CHR ''*''"
  by (auto simp: isDigit_def code_def)

lemma alpha_not_mark: "isAlpha c \<Longrightarrow> c \<noteq> CHR 0x60 \<and> c \<noteq> CHR ''*''"
  by (auto simp: isAlpha_def isLower_def isUpper_def code_def)

lemma countFences_prefix: "CHR 0x60 \<notin> set p \<Longrightarrow> countFences (p @ s) = countFences s"
  by (induction p) (auto simp: countFences_skip)

lemma countFences_free: "CHR 0x60 \<notin> set p \<Longrightarrow> countFences p = 0"
  using countFences_prefix[of p "[]"] by simp

lemma countFences_suffix: "CHR 0x60 \<notin> set p \<Longrightarrow> countFences (s @ p) = countFences s"
proof (cases p)
  case Nil
  then show ?thesis by simp
next
  case (Cons c p')
  assume "CHR 0x60 \<notin> set p"
  with Cons have "c \<noteq> CHR 0x60" "CHR 0x60 \<notin> set p'" by auto
  then show ?thesis using Cons by (simp add: countFences_sep countFences_free)
qed

lemma countChar_free: "d \<notin> set p \<Longrightarrow> countChar d p = 0"
  by (induction p) (auto simp: countChar_def)

lemma countFences_dropWhile:
  assumes "\<And>c. P c \<Longrightarrow> c \<noteq> CHR 0x60"
  shows "countFences (dropWhile P s) = countFences s"
proof -
  have "CHR 0x60 \<notin> set (takeWhile P s)" using assms by (auto dest: set_takeWhileD)
  from countFences_prefix[OF this, of "dropWhile P s"] show ?thesis by simp
qed

lemma countChar_dropWhile:
  assumes "\<And>c. P c \<Longrightarrow> c \<noteq> d"
  shows "countChar d (dropWhile P s) = countChar d s"
  using assms by (induction s) (auto simp: countChar_def)

lemma counts_skipWs:
  "countFences (skipWs s) = countFences s"
  "countChar CHR ''*'' (skipWs s) = countChar CHR ''*'' s"
  unfolding skipWs_def using space_not_mark
  by (simp_all add: countFences_dropWhile countChar_dropWhile)

lemma counts_trim:
  "countFences (trim s) = countFences s"
  "countChar CHR ''*'' (trim s) = countChar CHR ''*'' s"
proof -
  define w where "w = rev (takeWhile isSpace (rev (skipWs s)))"
  have d: "skipWs s = trim s @ w" unfolding w_def by (rule trim_decomp)
  have "\<forall>c\<in>set w. isSpace c" unfolding w_def by (auto dest: set_takeWhileD)
  then have w: "CHR 0x60 \<notin> set w" "CHR ''*'' \<notin> set w" using space_not_mark by auto
  have "countFences (skipWs s) = countFences (trim s)"
    unfolding d using w(1) by (rule countFences_suffix)
  then show "countFences (trim s) = countFences s" by (simp add: counts_skipWs)
  have "countChar CHR ''*'' (skipWs s) = countChar CHR ''*'' (trim s)"
    unfolding d using w(2) by (simp add: countChar_append countChar_free)
  then show "countChar CHR ''*'' (trim s) = countChar CHR ''*'' s" by (simp add: counts_skipWs)
qed

lemma counts_ws1:
  assumes "ws1 s = Some r"
  shows "countFences r = countFences s" and "countChar CHR ''*'' r = countChar CHR ''*'' s"
  using assms space_not_mark
  by (auto simp: ws1_def counts_skipWs countFences_skip countChar_Cons
        split: list.splits if_splits)

lemma counts_digits1:
  assumes "digits1 s = Some r"
  shows "countFences r = countFences s" and "countChar CHR ''*'' r = countChar CHR ''*'' s"
  using assms digit_not_mark
  by (auto simp: digits1_def countFences_dropWhile countChar_dropWhile countFences_skip
        countChar_Cons split: list.splits if_splits)

lemma counts_oneOf:
  assumes "oneOf cls s = Some r" and "CHR 0x60 \<notin> set cls" and "CHR ''*'' \<notin> set cls"
  shows "countFences r = countFences s" and "countChar CHR ''*'' r = countChar CHR ''*'' s"
proof -
  from assms(1) obtain c where s: "s = c # r" and c: "c \<in> set cls"
    by (auto simp: oneOf_def split: list.splits if_splits)
  from c assms(2,3) have "c \<noteq> CHR 0x60" "c \<noteq> CHR ''*''" by auto
  then show "countFences r = countFences s" and "countChar CHR ''*'' r = countChar CHR ''*'' s"
    unfolding s by (simp_all add: countFences_skip countChar_Cons)
qed

lemma counts_oneSat:
  assumes "oneSat P s = Some r" and "\<not> P (CHR 0x60)" and "\<not> P CHR ''*''"
  shows "countFences r = countFences s" and "countChar CHR ''*'' r = countChar CHR ''*'' s"
proof -
  from assms(1) obtain c where s: "s = c # r" and c: "P c"
    by (auto simp: oneSat_def split: list.splits if_splits)
  from c assms(2,3) have "c \<noteq> CHR 0x60" "c \<noteq> CHR ''*''" by auto
  then show "countFences r = countFences s" and "countChar CHR ''*'' r = countChar CHR ''*'' s"
    unfolding s by (simp_all add: countFences_skip countChar_Cons)
qed

lemma counts_matchPattern:
  assumes "matchPattern p line = Some (g, r)"
  shows "countFences r = countFences line"
    and "g \<noteq> Some ''*'' \<Longrightarrow> countChar CHR ''*'' r = countChar CHR ''*'' line"
proof -
  have "countFences r = countFences line \<and>
        (g \<noteq> Some ''*'' \<longrightarrow> countChar CHR ''*'' r = countChar CHR ''*'' line)"
  proof (cases p)
    case BulletPat
    with assms obtain c r0 where s: "skipWs line = c # r0" and c: "c \<in> set ''-*+''"
      and w: "ws1 r0 = Some r" and g: "g = Some [c]"
      by (auto simp: Option.bind_eq_Some_conv split: list.splits if_splits)
    have "countFences (c # r0) = countFences r0" using c by (intro countFences_skip) auto
    then have f: "countFences line = countFences r"
      using counts_skipWs(1)[of line] counts_ws1(1)[OF w] s by simp
    have "c \<noteq> CHR ''*'' \<Longrightarrow> countChar CHR ''*'' line = countChar CHR ''*'' r"
      using counts_skipWs(2)[of line] counts_ws1(2)[OF w] s by (simp add: countChar_Cons)
    with f g show ?thesis by auto
  next
    case NumberedPat
    with assms obtain r1 r2 where a: "digits1 (skipWs line) = Some r1"
      and b: "oneOf ''.)'' r1 = Some r2" and c: "ws1 r2 = Some r"
      by (auto simp: Option.bind_eq_Some_conv)
    have "countFences r2 = countFences r1" "countChar CHR ''*'' r2 = countChar CHR ''*'' r1"
      using b by (rule counts_oneOf; simp)+
    then show ?thesis
      using counts_skipWs[of line] counts_digits1[OF a] counts_ws1[OF c] by simp
  next
    case LetteredPat
    with assms obtain r1 r2 where a: "oneSat isAlpha (skipWs line) = Some r1"
      and b: "oneOf ''.)'' r1 = Some r2" and c: "ws1 r2 = Some r"
      by (auto simp: Option.bind_eq_Some_conv)
    have "countFences r1 = countFences (skipWs line)"
      "countChar CHR ''*'' r1 = countChar CHR ''*'' (skipWs line)"
      using counts_oneSat[OF a] alpha_not_mark by blast+
    moreover have "countFences r2 = countFences r1" "countChar CHR ''*'' r2 = countChar CHR ''*'' r1"
      using b by (rule counts_oneOf; simp)+
    ultimately show ?thesis
      using counts_skipWs[of line] counts_ws1[OF c] by simp
  next
    case ParenPat
    with assms obtain r1 r2 r3 where a: "oneOf ''('' (skipWs line) = Some r1"
      and b: "digits1 r1 = Some r2" and c: "oneOf '')'' r2 = Some r3" and d: "ws1 r3 = Some r"
      by (auto simp: Option.bind_eq_Some_conv)
    have "countFences r1 = countFences (skipWs line)"
      "countChar CHR ''*'' r1 = countChar CHR ''*'' (skipWs line)"
      using a by (rule counts_oneOf; simp)+
    moreover have "countFences r3 = countFences r2" "countChar CHR ''*'' r3 = countChar CHR ''*'' r2"
      using c by (rule counts_oneOf; simp)+
    ultimately show ?thesis
      using counts_skipWs[of line] counts_digits1[OF b] counts_ws1[OF d] by simp
  qed
  then show "countFences r = countFences line"
    and "g \<noteq> Some ''*'' \<Longrightarrow> countChar CHR ''*'' r = countChar CHR ''*'' line"
    by simp_all
qed

lemma detectLoop_index:
  "detectLoop ps line = Some m \<Longrightarrow> \<exists>r. matchPattern (lm_pattern m) line = Some (lm_index m, r)"
  by (induction ps) (auto split: option.splits)

lemma newline_not_mark: "newline \<noteq> CHR 0x60" "newline \<noteq> CHR ''*''"
  by (simp_all add: newline_def)

lemma countFences_after_newline:
  assumes "a = [] \<or> last a = newline"
  shows "countFences (a @ b) = countFences a + countFences b"
proof (cases "a = []")
  case True
  then show ?thesis by simp
next
  case False
  with assms have a: "a = butlast a @ [newline]" by (metis append_butlast_last_id)
  have "countFences (butlast a @ newline # b) = countFences (butlast a) + countFences b"
    using newline_not_mark(1) by (rule countFences_sep)
  moreover have "countFences (butlast a @ newline # []) = countFences (butlast a) + countFences []"
    using newline_not_mark(1) by (rule countFences_sep)
  ultimately show ?thesis using a by (metis append_Cons append_Nil append_assoc add.right_neutral countFences.simps(2))
qed

lemma counts_atx:
  assumes "atxMatch t = Some (n, g)" and "list_all (\<lambda>c. \<not> isLineTerminator c) t"
  shows "countFences g = countFences t" and "countChar CHR ''*'' g = countChar CHR ''*'' t"
proof -
  define k where "k = length (takeWhile (\<lambda>c. c = CHR ''#'') t)"
  from assms(1) obtain r where r: "ws1 (drop k t) = Some r"
    and g: "g = takeWhile (\<lambda>c. \<not> isLineTerminator c) r"
    unfolding atxMatch_def Let_def k_def[symmetric]
    by (auto split: if_splits simp: Option.bind_eq_Some_conv)
  have d: "drop k t = dropWhile (\<lambda>c. c = CHR ''#'') t"
    unfolding k_def by (rule dropWhile_eq_drop[symmetric])
  have "set r \<subseteq> set t" using ws1_rest[OF r] set_drop_subset[of k t] by blast
  then have gr: "g = r"
    unfolding g using assms(2) by (auto simp: list_all_iff takeWhile_eq_all_conv)
  have 1: "countFences (drop k t) = countFences t"
    unfolding d by (rule countFences_dropWhile) auto
  have 2: "countChar CHR ''*'' (drop k t) = countChar CHR ''*'' t"
    unfolding d by (rule countChar_dropWhile) auto
  show "countFences g = countFences t" and "countChar CHR ''*'' g = countChar CHR ''*'' t"
    using counts_ws1[OF r] 1 2 gr by simp_all
qed

lemma counts_heading:
  assumes "isHeading (analyzeHeading t lines i)"
    and "atxMatch t = None \<or> list_all (\<lambda>c. \<not> isLineTerminator c) t"
  shows "countFences (headingText (analyzeHeading t lines i)) = countFences t"
    and "countChar CHR ''*'' (headingText (analyzeHeading t lines i)) = countChar CHR ''*'' t"
    and "remainingContent (analyzeHeading t lines i) = []"
proof -
  have "countFences (headingText (analyzeHeading t lines i)) = countFences t \<and>
    countChar CHR ''*'' (headingText (analyzeHeading t lines i)) = countChar CHR ''*'' t \<and>
    remainingContent (analyzeHeading t lines i) = []"
  proof (cases "atxMatch t")
    case None
    with assms(1) have "headingText (analyzeHeading t lines i) = trim t \<and>
        remainingContent (analyzeHeading t lines i) = []"
      by (auto simp: analyzeHeading_def split: option.splits if_splits)
    then show ?thesis by (simp add: counts_trim)
  next
    case (Some ng)
    obtain n g where ng: "ng = (n, g)" by (cases ng)
    with Some assms(2) have na: "list_all (\<lambda>c. \<not> isLineTerminator c) t" by simp
    have "headingText (analyzeHeading t lines i) = trim g \<and>
        remainingContent (analyzeHeading t lines i) = []"
      using Some ng by (simp add: analyzeHeading_def)
    then show ?thesis
      using counts_atx[OF Some[unfolded ng] na] by (simp add: counts_trim)
  qed
  then show "countFences (headingText (analyzeHeading t lines i)) = countFences t"
    and "countChar CHR ''*'' (headingText (analyzeHeading t lines i)) = countChar CHR ''*'' t"
    and "remainingContent (analyzeHeading t lines i) = []"
    by simp_all
qed

lemma counts_quote:
  assumes "startsWith t ''>''"
  shows "countFences (case tl t of c # r \<Rightarrow> if isSpace c then r else c # r | [] \<Rightarrow> []) =
         countFences t"
    and "countChar CHR ''*'' (case tl t of c # r \<Rightarrow> if isSpace c then r else c # r | [] \<Rightarrow> []) =
         countChar CHR ''*'' t"
proof -
  from assms obtain r0 where t: "t = CHR ''>'' # r0"
    by (cases t) (auto simp: startsWith_def)
  show "countFences (case tl t of c # r \<Rightarrow> if isSpace c then r else c # r | [] \<Rightarrow> []) =
         countFences t"
    unfolding t using space_not_mark by (cases r0) (auto simp: countFences_skip)
  show "countChar CHR ''*'' (case tl t of c # r \<Rightarrow> if isSpace c then r else c # r | [] \<Rightarrow> []) =
         countChar CHR ''*'' t"
    unfolding t using space_not_mark by (cases r0) (auto simp: countChar_Cons)
qed

lemma counts_list_item:
  assumes "detectListType line = Some m"
  shows "countFences (trim (removePattern (lm_pattern m) line)) = countFences line"
    and "\<not> starBullet line \<Longrightarrow>
         countChar CHR ''*'' (trim (removePattern (lm_pattern m) line)) = countChar CHR ''*'' line"
proof -
  from assms obtain r where r: "matchPattern (lm_pattern m) line = Some (lm_index m, r)"
    unfolding detectListType_def using detectLoop_index by blast
  then have rp: "removePattern (lm_pattern m) line = r" by (simp add: removePattern_def)
  show "countFences (trim (removePattern (lm_pattern m) line)) = countFences line"
    unfolding rp using counts_matchPattern(1)[OF r] by (simp add: counts_trim)
  assume "\<not> starBullet line"
  then have "lm_index m \<noteq> Some ''*''" using assms by (simp add: starBullet_def)
  from counts_matchPattern(2)[OF r this]
  show "countChar CHR ''*'' (trim (removePattern (lm_pattern m) line)) = countChar CHR ''*'' line"
    unfolding rp by (simp add: counts_trim)
qed

lemma counts_blank:
  assumes "trim line = []"
  shows "countFences line = 0" and "countChar CHR ''*'' line = 0"
  using counts_trim[of line] assms by (simp_all add: countChar_Nil)

lemma sum_pushCurrent:
  "sum_list (map f (pushCurrent st)) =
     sum_list (map f (blocks st)) + (case currentBlock st of None \<Rightarrow> 0 | Some b \<Rightarrow> f b)"
  by (simp add: pushCurrent_def split: option.splits)

lemma analyzeLine_counts:
  assumes ct: "codeTail st" and kept: "keptLine (inCodeBlock st) line"
  shows "stateStars (analyzeLine lines st (i, line)) = stateStars st + countChar CHR ''*'' line \<and>
         stateFences (analyzeLine lines st (i, line)) = stateFences st + countFences line \<and>
         codeTail (analyzeLine lines st (i, line))"
proof -
  define t where "t = trim line"
  have tc: "countFences t = countFences line" "countChar CHR ''*'' t = countChar CHR ''*'' line"
    unfolding t_def by (rule counts_trim)+
  consider (fence) "startsWith t ''```''"
    | (code) "\<not> startsWith t ''```''" "inCodeBlock st"
    | (blank) "\<not> startsWith t ''```''" "\<not> inCodeBlock st" "t = []"
    | (quote) "\<not> startsWith t ''```''" "\<not> inCodeBlock st" "t \<noteq> []" "startsWith t ''>''"
    | (list) m where "\<not> startsWith t ''```''" "\<not> inCodeBlock st" "t \<noteq> []"
        "\<not> startsWith t ''>''" "detectListType line = Some m"
    | (head) "\<not> startsWith t ''```''" "\<not> inCodeBlock st" "t \<noteq> []"
        "\<not> startsWith t ''>''" "detectListType line = None"
        "isHeading (analyzeHeading t lines i)"
    | (para) "\<not> startsWith t ''```''" "\<not> inCodeBlock st" "t \<noteq> []"
        "\<not> startsWith t ''>''" "detectListType line = None"
        "\<not> isHeading (analyzeHeading t lines i)"
    by (cases "detectListType line") auto
  then show ?thesis
  proof cases
    case fence
    with kept have k: "countFences line = 1" "countChar CHR ''*'' line = 0"
      by (simp_all add: keptLine_def t_def)
    show ?thesis
    proof (cases "inCodeBlock st")
      case True
      have r: "analyzeLine lines st (i, line) =
          st\<lparr>inCodeBlock := False, blocks := blocks st @ [mkBlock Code (codeBlockContent st)],
             codeBlockContent := []\<rparr>"
        unfolding analyzeLine_def Let_def fst_conv snd_conv t_def[symmetric]
        using fence True by simp
      show ?thesis
        unfolding r using k True
        by (simp add: stateStars_def stateFences_def codeTail_def sum_pushCurrent
              blockStars_def blockFences_def mkBlock_def countChar_Nil)
    next
      case False
      have r: "analyzeLine lines st (i, line) = st\<lparr>inCodeBlock := True\<rparr>"
        unfolding analyzeLine_def Let_def fst_conv snd_conv t_def[symmetric]
        using fence False by simp
      show ?thesis
        unfolding r using k False ct
        by (simp add: stateStars_def stateFences_def codeTail_def sum_pushCurrent)
    qed
  next
    case code
    have r: "analyzeLine lines st (i, line) =
        st\<lparr>codeBlockContent := codeBlockContent st @ line @ [newline]\<rparr>"
      unfolding analyzeLine_def Let_def fst_conv snd_conv t_def[symmetric]
      using code by simp
    have "countFences (codeBlockContent st @ (line @ [newline])) =
          countFences (codeBlockContent st) + countFences (line @ [newline])"
      using ct by (intro countFences_after_newline) (simp add: codeTail_def)
    moreover have "countFences (line @ [newline]) = countFences line"
      by (rule countFences_suffix) (simp add: newline_def)
    ultimately have f: "countFences (codeBlockContent st @ line @ [newline]) =
          countFences (codeBlockContent st) + countFences line" by simp
    have s: "countChar CHR ''*'' (codeBlockContent st @ line @ [newline]) =
          countChar CHR ''*'' (codeBlockContent st) + countChar CHR ''*'' line"
      by (simp add: countChar_append countChar_Cons countChar_Nil newline_def)
    show ?thesis
      unfolding r using code(2) f s
      by (simp add: stateStars_def stateFences_def codeTail_def sum_pushCurrent)
  next
    case blank
    have z: "countFences line = 0" "countChar CHR ''*'' line = 0"
      using blank(3) unfolding t_def by (rule counts_blank)+
    have r: "analyzeLine lines st (i, line) =
       (case currentBlock st of
          Some b \<Rightarrow> if btype b \<noteq> List then st\<lparr>blocks := blocks st @ [b], currentBlock := None\<rparr>
                    else st
        | None \<Rightarrow> st)"
      using blank(2,3) unfolding t_def by (rule blank_step)
    show ?thesis
      unfolding r using z ct
      by (auto simp: stateStars_def stateFences_def codeTail_def sum_pushCurrent
            split: option.splits)
  next
    case quote
    define q where "q = (case tl t of c # r \<Rightarrow> if isSpace c then r else c # r | [] \<Rightarrow> [])"
    have qc: "countFences q = countFences line" "countChar CHR ''*'' q = countChar CHR ''*'' line"
      unfolding q_def using counts_quote[OF quote(4)] tc by simp_all
    have r: "analyzeLine lines st (i, line) =
       (case currentBlock st of
          Some b \<Rightarrow>
            if btype b = Quote then
              st\<lparr>currentBlock := Some (b\<lparr>content := content b @ [newline] @ q\<rparr>)\<rparr>
            else st\<lparr>blocks := blocks st @ [b], currentBlock := Some (mkBlock Quote q)\<rparr>
        | None \<Rightarrow> st\<lparr>currentBlock := Some (mkBlock Quote q)\<rparr>)"
      unfolding analyzeLine_def Let_def fst_conv snd_conv t_def[symmetric] q_def
      using quote by simp
    have sep: "countFences (a @ newline # q) = countFences a + countFences q" for a
      using newline_not_mark(1) by (rule countFences_sep)
    show ?thesis
      unfolding r using qc ct sep
      by (auto simp: stateStars_def stateFences_def codeTail_def sum_pushCurrent
            blockStars_def blockFences_def mkBlock_def countChar_append countChar_Cons
            newline_def split: option.splits)
  next
    case (list m)
    define c where "c = trim (removePattern (lm_pattern m) line)"
    define lb where "lb = listBlock c (lm_type m)
           (if lm_type m = Numbered then Some (parseInt (indexOrOne (lm_index m))) else None)"
    from kept list(1,2) have "\<not> starBullet line" by (simp add: keptLine_def t_def)
    then have cc: "countFences c = countFences line" "countChar CHR ''*'' c = countChar CHR ''*'' line"
      unfolding c_def using counts_list_item[OF list(5)] by simp_all
    have lbc: "blockFences lb = countFences line" "blockStars lb = countChar CHR ''*'' line"
      unfolding lb_def using cc by (simp_all add: blockFences_def blockStars_def listBlock_def)
    have r: "analyzeLine lines st (i, line) =
       (let st1 = (case currentBlock st of
                     Some b \<Rightarrow> if btype b \<noteq> List
                               then st\<lparr>blocks := blocks st @ [b], currentBlock := None\<rparr>
                               else st
                   | None \<Rightarrow> st)
        in st1\<lparr>blocks := blocks st1 @ [lb]\<rparr>)"
      unfolding analyzeLine_def Let_def fst_conv snd_conv t_def[symmetric] lb_def c_def
      using list by simp
    show ?thesis
      unfolding r Let_def using lbc ct
      by (auto simp: stateStars_def stateFences_def codeTail_def sum_pushCurrent
            split: option.splits)
  next
    case head
    define h where "h = analyzeHeading t lines i"
    from kept head(1,2) have a: "atxMatch t = None \<or> list_all (\<lambda>c. \<not> isLineTerminator c) t"
      by (simp add: keptLine_def t_def)
    have hc: "countFences (headingText h) = countFences line"
      "countChar CHR ''*'' (headingText h) = countChar CHR ''*'' line"
      "remainingContent h = []"
      unfolding h_def using counts_heading[OF head(6) a] tc by simp_all
    have r: "analyzeLine lines st (i, line) =
        st\<lparr>blocks := pushCurrent st @ [headingBlock (headingText h) (hlevel h)],
           currentBlock := None\<rparr>"
      unfolding analyzeLine_def Let_def fst_conv snd_conv t_def[symmetric] h_def[symmetric]
      using head hc(3) by (simp add: h_def)
    show ?thesis
      unfolding r using hc(1,2) ct
      by (simp add: stateStars_def stateFences_def codeTail_def sum_pushCurrent
            blockStars_def blockFences_def headingBlock_def pushCurrent_def
            split: option.splits)
  next
    case para
    have r: "analyzeLine lines st (i, line) =
       (case currentBlock st of
          None \<Rightarrow> st\<lparr>currentBlock := Some (mkBlock Paragraph t)\<rparr>
        | Some b \<Rightarrow>
            if btype b = Paragraph then
              st\<lparr>currentBlock := Some (b\<lparr>content := content b @ '' '' @ t\<rparr>)\<rparr>
            else st\<lparr>blocks := blocks st @ [b], currentBlock := Some (mkBlock Paragraph t)\<rparr>)"
      unfolding analyzeLine_def Let_def fst_conv snd_conv t_def[symmetric]
      using para by simp
    have sep: "countFences (a @ CHR '' '' # t) = countFences a + countFences t" for a
      by (rule countFences_sep) simp
    show ?thesis
      unfolding r using tc ct sep
      by (auto simp: stateStars_def stateFences_def codeTail_def sum_pushCurrent
            blockStars_def blockFences_def mkBlock_def countChar_append countChar_Cons
            split: option.splits)
  qed
qed

lemma stateAfter_Suc:
  assumes "n < length (split newline text)"
  shows "stateAfter text (Suc n) =
         analyzeLine (split newline text) (stateAfter text n) (n, split newline text ! n)"
  unfolding stateAfter_def Let_def
  using take_Suc_enumerate[OF assms] by (simp add: runLines_snoc)

lemma stateAfter_0: "stateAfter text 0 = initState"
  by (simp add: stateAfter_def runLines_Nil)

lemma stateAfter_all:
  "pushCurrent (stateAfter text (length (split newline text))) = analyzeTextStructure text"
  by (simp add: stateAfter_def analyzeTextStructure_def Let_def)

lemma stateAfter_counts:
  assumes "n \<le> length (split newline text)"
    and "\<forall>j<n. keptLine (inCodeBlock (stateAfter text j)) (split newline text ! j)"
  shows "stateStars (stateAfter text n) =
           sum_list (map (countChar CHR ''*'') (take n (split newline text))) \<and>
         stateFences (stateAfter text n) =
           sum_list (map countFences (take n (split newline text))) \<and>
         codeTail (stateAfter text n)"
  using assms
proof (induction n)
  case 0
  show ?case
    by (simp add: stateAfter_0 stateStars_def stateFences_def codeTail_def initState_def
          pushCurrent_def countChar_Nil)
next
  case (Suc n)
  then have n: "n < length (split newline text)" by simp
  from Suc have ih: "stateStars (stateAfter text n) =
           sum_list (map (countChar CHR ''*'') (take n (split newline text)))"
      "stateFences (stateAfter text n) = sum_list (map countFences (take n (split newline text)))"
      "codeTail (stateAfter text n)"
    by simp_all
  from Suc.prems(2) have k: "keptLine (inCodeBlock (stateAfter text n)) (split newline text ! n)"
    by simp
  from analyzeLine_counts[OF ih(3) k, of "split newline text" n] ih(1,2)
  show ?case
    unfolding stateAfter_Suc[OF n] by (simp add: take_Suc_conv_app_nth[OF n])
qed

lemma countFences_unlines: "countFences (unlines L) = sum_list (map countFences L)"
proof (induction L)
  case Nil
  show ?case by (simp add: unlines_Nil)
next
  case (Cons l L)
  have "countFences (l @ newline # unlines L) = countFences l + countFences (unlines L)"
    using newline_not_mark(1) by (rule countFences_sep)
  with Cons show ?case by (simp add: unlines_Cons)
qed

lemma countChar_unlines:
  "countChar CHR ''*'' (unlines L) = sum_list (map (countChar CHR ''*'') L)"
  by (induction L)
     (simp_all add: unlines_Nil unlines_Cons countChar_append countChar_Cons countChar_Nil
        newline_def)

lemma unlines_split: "unlines (split newline s) = s @ [newline]"
proof -
  have "last (split newline (s @ [newline])) = []" by (simp add: split_snoc_sep)
  from unlines_butlast_split[OF this] show ?thesis by (simp add: split_snoc_sep)
qed

lemma counts_lines:
  "countFences text = sum_list (map countFences (split newline text))"
  "countChar CHR ''*'' text = sum_list (map (countChar CHR ''*'') (split newline text))"
proof -
  have "countFences (text @ [newline]) = countFences text"
    by (rule countFences_suffix) (simp add: newline_def)
  then show "countFences text = sum_list (map countFences (split newline text))"
    using countFences_unlines[of "split newline text"] by (simp add: unlines_split)
  have "countChar CHR ''*'' (text @ [newline]) = countChar CHR ''*'' text"
    by (simp add: countChar_append countChar_Cons countChar_Nil newline_def)
  then show "countChar CHR ''*'' text = sum_list (map (countChar CHR ''*'') (split newline text))"
    using countChar_unlines[of "split newline text"] by (simp add: unlines_split)
qed

text \<open>The analysis of a lossless text has the asterisks and the fence markers of the text.\<close>

lemma analysis_counts:
  assumes "lossless text"
  shows "sum_list (map blockStars (analyzeTextStructure text)) = countChar CHR ''*'' text"
    and "sum_list (map blockFences (analyzeTextStructure text)) = countFences text"
proof -
  define n where "n = length (split newline text)"
  from assms have k: "\<forall>j<n. keptLine (inCodeBlock (stateAfter text j)) (split newline text ! j)"
    and nc: "\<not> inCodeBlock (stateAfter text n)"
    unfolding lossless_def keptFlags_def Let_def n_def by (simp_all add: list_all_iff)
  have "n \<le> length (split newline text)" by (simp add: n_def)
  from stateAfter_counts[OF this k]
  have c: "stateStars (stateAfter text n) = countChar CHR ''*'' text"
    "stateFences (stateAfter text n) = countFences text" "codeTail (stateAfter text n)"
    by (simp_all add: n_def counts_lines[symmetric])
  from c(3) nc have e: "codeBlockContent (stateAfter text n) = []" by (simp add: codeTail_def)
  show "sum_list (map blockStars (analyzeTextStructure text)) = countChar CHR ''*'' text"
    using c(1) e unfolding stateStars_def stateAfter_all[symmetric] n_def
    by (simp add: countChar_Nil)
  show "sum_list (map blockFences (analyzeTextStructure text)) = countFences text"
    using c(2) e nc unfolding stateFences_def stateAfter_all[symmetric] n_def by simp
qed

lemma produced_render:
  assumes "produced b"
  shows "markdown (renderBlock st b) = markdown st @ unlines (blockLines b)"
proof (cases "btype b")
  case Heading
  then show ?thesis by (simp add: renderBlock_def blockLines_def unlines_def)
next
  case Paragraph
  then show ?thesis by (simp add: renderBlock_def blockLines_def unlines_def)
next
  case List
  with assms obtain k where k: "listType b = Some k"
    by (auto simp: produced_def)
  show ?thesis
    using List k by (simp add: renderBlock_def blockLines_def unlines_def Let_def)
next
  case Code
  with assms have "codeOk (content b)" by (simp add: produced_def)
  then have "unlines (butlast (split newline (content b))) = content b"
    by (simp add: codeOk_def unlines_butlast_split)
  then show ?thesis
    using Code by (simp add: renderBlock_def blockLines_def unlines_Cons unlines_append unlines_Nil)
next
  case Quote
  then show ?thesis by (simp add: renderBlock_def blockLines_def unlines_def)
qed

lemma produced_render_all:
  "list_all produced bs \<Longrightarrow>
     markdown (foldl renderBlock st bs) = markdown st @ unlines (concat (map blockLines bs))"
proof (induction bs arbitrary: st)
  case Nil
  then show ?case by (simp add: unlines_def)
next
  case (Cons b bs)
  then show ?case by (simp add: produced_render unlines_append)
qed

lemma hashes_free: "CHR 0x60 \<notin> set (replicate n CHR ''#'' @ '' '')"
  "CHR ''*'' \<notin> set (replicate n CHR ''#'' @ '' '')"
  by auto

lemma block_lines_counts:
  assumes "produced b"
  shows "sum_list (map countFences (blockLines b)) = blockFences b"
    and "sum_list (map (countChar CHR ''*'') (blockLines b)) = blockStars b"
proof -
  have "sum_list (map countFences (blockLines b)) = blockFences b \<and>
        sum_list (map (countChar CHR ''*'') (blockLines b)) = blockStars b"
  proof (cases "btype b")
    case Heading
    have "countFences ((replicate (levelOrOne b) CHR ''#'' @ '' '') @ content b) =
          countFences (content b)"
      using hashes_free(1) by (rule countFences_prefix)
    moreover have "countChar CHR ''*'' (replicate (levelOrOne b) CHR ''#'' @ '' '') = 0"
      using hashes_free(2) by (rule countChar_free)
    ultimately show ?thesis
      using Heading
      by (simp add: blockLines_def blockFences_def blockStars_def countChar_append countChar_Nil
            countChar_Cons)
  next
    case Paragraph
    then show ?thesis
      by (simp add: blockLines_def blockFences_def blockStars_def countChar_Nil)
  next
    case List
    with assms have "listType b = Some Bullet \<and> listIndex b = None \<or>
            listType b = Some Numbered \<and> listIndex b = Some (Num 1)"
      by (auto simp: produced_def)
    then have p: "listPrefix (listType b) b = ''- '' \<or> listPrefix (listType b) b = ''1. ''"
      by (auto simp: listPrefix_def showInt_one)
    then have f: "CHR 0x60 \<notin> set (listPrefix (listType b) b)"
      "CHR ''*'' \<notin> set (listPrefix (listType b) b)" by auto
    show ?thesis
      using List countFences_prefix[OF f(1)] countChar_free[OF f(2)]
      by (simp add: blockLines_def blockFences_def blockStars_def countChar_append)
  next
    case Code
    with assms have "codeOk (content b)" by (simp add: produced_def)
    then have u: "unlines (butlast (split newline (content b))) = content b"
      by (simp add: codeOk_def unlines_butlast_split)
    have "sum_list (map countFences (butlast (split newline (content b)))) = countFences (content b)"
      using countFences_unlines[of "butlast (split newline (content b))"] u by simp
    moreover have "sum_list (map (countChar CHR ''*'') (butlast (split newline (content b)))) =
        countChar CHR ''*'' (content b)"
      using countChar_unlines[of "butlast (split newline (content b))"] u by simp
    ultimately show ?thesis
      using Code
      by (simp add: blockLines_def blockFences_def blockStars_def countChar_Cons countChar_Nil)
  next
    case Quote
    have "countFences (''> '' @ content b) = countFences (content b)"
      by (rule countFences_prefix) simp
    then show ?thesis
      using Quote
      by (simp add: blockLines_def blockFences_def blockStars_def countChar_Cons countChar_Nil)
  qed
  then show "sum_list (map countFences (blockLines b)) = blockFences b"
    and "sum_list (map (countChar CHR ''*'') (blockLines b)) = blockStars b"
    by simp_all
qed

lemma render_counts:
  assumes "list_all produced bs"
  shows "countFences (blocksToMarkdown bs) = sum_list (map blockFences bs)"
    and "countChar CHR ''*'' (blocksToMarkdown bs) = sum_list (map blockStars bs)"
proof -
  have m: "markdown (foldl renderBlock initRender bs) = unlines (concat (map blockLines bs))"
    using produced_render_all[OF assms, of initRender] by (simp add: initRender_def)
  have "sum_list (map countFences (concat (map blockLines bs))) = sum_list (map blockFences bs) \<and>
        sum_list (map (countChar CHR ''*'') (concat (map blockLines bs))) =
        sum_list (map blockStars bs)"
    using assms by (induction bs) (simp_all add: block_lines_counts)
  then show "countFences (blocksToMarkdown bs) = sum_list (map blockFences bs)"
    and "countChar CHR ''*'' (blocksToMarkdown bs) = sum_list (map blockStars bs)"
    unfolding blocksToMarkdown_def m
    by (simp_all add: counts_trim countFences_unlines countChar_unlines)
qed

text \<open>The rendering of the analysis of a lossless text has the asterisks and the fence
  markers of the text.\<close>

lemma transform_counts:
  assumes "lossless text"
  shows "countChar CHR ''*'' (transform text) = countChar CHR ''*'' text"
    and "countFences (transform text) = countFences text"
  unfolding transform_def
  using render_counts[OF analyze_produced[of "text"]] analysis_counts[OF assms] by simp_all

lemma atx_line_validates:
  assumes "i < length (split newline text)"
    and "atxMatch (trim (split newline text ! i)) \<noteq> None"
    and "\<not> inCodeBlock (stateAfter text i)"
  shows "searchHeader True (transform text)"
proof -
  from assms(2) obtain n g where atx: "atxMatch (trim (split newline text ! i)) = Some (n, g)"
    by auto
  from atxMatch_facts[OF atx] have f: "1 \<le> n" "n \<le> 6" "g \<noteq> []" "\<not> isSpace (hd g)"
    by simp_all
  have ne: "trim g \<noteq> []" using f(3,4) by (rule trim_nonempty)
  have hd: "\<not> isSpace (hd (trim g))" using ne by (rule trim_hd)
  define b where "b = headingBlock (trim g) (Some n)"
  have b: "btype b = Heading" "level b = Some n" "content b = trim g"
    by (simp_all add: b_def headingBlock_def)
  have nc: "\<not> inCodeBlock (runLines (split newline text) initState
                 (take i (enumerate 0 (split newline text))))"
    using assms(3) by (simp add: stateAfter_def Let_def)
  have "b \<in> set (analyzeTextStructure text)"
    unfolding b_def using assms(1) atx nc by (rule atx_line_gives_heading)
  then have "searchHeader True (blocksToMarkdown (analyzeTextStructure text))"
    using b(1,2) f(1,2)
  proof (rule heading_rendered_valid)
    show "content b \<noteq> []" using ne b(3) by simp
    show "\<not> isSpace (hd (content b))" using hd b(3) by simp
  qed
  then show ?thesis by (simp add: transform_def)
qed

text \<open>
  Claim C9, as the code has it.  Six texts with an ATX heading line, an even number of
  asterisks and an even number of fence markers, whose rendering the validation
  rejects.  In each of the first five the heading line is outside any code block and
  one line or the end of the text breaks one condition of a lossless text; the list of
  flags says which line.  An asterisk used as list marker is rendered as a dash.  A
  fence line with two fence markers is rendered as one.  An asterisk on a fence line
  is dropped with the line.  A code block that is never closed is dropped with its
  fence.  The text of a heading is read up to the carriage return, and the asterisk
  after it is lost.  The sixth text is lossless and is rendered unchanged, but its
  heading line stands inside a code block and is written with a tab, which the
  analyzer's heading pattern accepts and the validation's does not.
\<close>

theorem balanced_input_unbalanced_output:
  "(atxMatch (trim (split newline bulletText ! 0)) \<noteq> None \<and>
    \<not> inCodeBlock (stateAfter bulletText 0) \<and>
    countChar CHR ''*'' bulletText mod 2 = 0 \<and> countFences bulletText mod 2 = 0 \<and>
    keptFlags bulletText = [True, False] \<and> \<not> inCodeBlock (stateAfter bulletText 2) \<and>
    transform bulletText = ''# Title'' @ [newline, newline] @ ''- item *'' \<and>
    \<not> validateMarkdown (transform bulletText)) \<and>
   (atxMatch (trim (split newline fenceText ! 0)) \<noteq> None \<and>
    \<not> inCodeBlock (stateAfter fenceText 0) \<and>
    countChar CHR ''*'' fenceText mod 2 = 0 \<and> countFences fenceText mod 2 = 0 \<and>
    keptFlags fenceText = [True, False, True, True] \<and>
    \<not> inCodeBlock (stateAfter fenceText 4) \<and>
    transform fenceText =
      ''# T'' @ [newline, newline] @ ''```'' @ [newline] @ ''x ``` y'' @ [newline] @ ''```'' \<and>
    \<not> validateMarkdown (transform fenceText)) \<and>
   (atxMatch (trim (split newline starFenceText ! 0)) \<noteq> None \<and>
    \<not> inCodeBlock (stateAfter starFenceText 0) \<and>
    countChar CHR ''*'' starFenceText mod 2 = 0 \<and> countFences starFenceText mod 2 = 0 \<and>
    keptFlags starFenceText = [True, True, False, True] \<and>
    \<not> inCodeBlock (stateAfter starFenceText 4) \<and>
    transform starFenceText =
      ''# T'' @ [newline, newline] @ ''```'' @ [newline] @ ''```'' @ [newline, newline] @ ''*a'' \<and>
    \<not> validateMarkdown (transform starFenceText)) \<and>
   (atxMatch (trim (split newline openFenceText ! 0)) \<noteq> None \<and>
    \<not> inCodeBlock (stateAfter openFenceText 0) \<and>
    countChar CHR ''*'' openFenceText mod 2 = 0 \<and> countFences openFenceText mod 2 = 0 \<and>
    keptFlags openFenceText = [True, True, True, True] \<and>
    inCodeBlock (stateAfter openFenceText 4) \<and>
    transform openFenceText = ''# T'' @ [newline, newline] @ ''a ``` b'' \<and>
    \<not> validateMarkdown (transform openFenceText)) \<and>
   (atxMatch (trim (split newline returnHeadingText ! 0)) \<noteq> None \<and>
    \<not> inCodeBlock (stateAfter returnHeadingText 0) \<and>
    countChar CHR ''*'' returnHeadingText mod 2 = 0 \<and>
    countFences returnHeadingText mod 2 = 0 \<and>
    keptFlags returnHeadingText = [False, True] \<and>
    \<not> inCodeBlock (stateAfter returnHeadingText 2) \<and>
    transform returnHeadingText = ''# a'' @ [newline, newline] @ ''*c'' \<and>
    \<not> validateMarkdown (transform returnHeadingText)) \<and>
   (atxMatch (trim (split newline codeHeadingText ! 1)) \<noteq> None \<and>
    inCodeBlock (stateAfter codeHeadingText 1) \<and>
    countChar CHR ''*'' codeHeadingText mod 2 = 0 \<and> countFences codeHeadingText mod 2 = 0 \<and>
    lossless codeHeadingText \<and>
    transform codeHeadingText = codeHeadingText \<and>
    \<not> validateMarkdown (transform codeHeadingText))"
  by code_simp

text \<open>
  Claim C9, amended.  If some line of the text is an ATX heading line that the
  assembler reaches outside a code block, the text has an even number of asterisks and
  an even number of fence markers, and the text is lossless (every fence line has one
  fence marker and no asterisk, the last fence is closed, and outside the code blocks
  no list marker is an asterisk and no ATX heading line contains a line terminator),
  then the rendering has the asterisks and the fence markers of the text, and its
  validation succeeds.  The line terminators of the source's alphabet are the carriage
  return, U+2028 and U+2029; only the first is a code unit of the model.
\<close>

theorem lossless_text_validates:
  assumes "i < length (split newline text)"
    and "atxMatch (trim (split newline text ! i)) \<noteq> None"
    and "\<not> inCodeBlock (stateAfter text i)"
    and "countChar CHR ''*'' text mod 2 = 0"
    and "countFences text mod 2 = 0"
    and "lossless text"
  shows "countChar CHR ''*'' (transform text) = countChar CHR ''*'' text \<and>
         countFences (transform text) = countFences text \<and>
         validateMarkdown (transform text)"
proof -
  have h: "searchHeader True (transform text)"
    using assms(1,2,3) by (rule atx_line_validates)
  from transform_counts[OF assms(6)] h assms(4,5) show ?thesis
    by (simp add: validateMarkdown_def)
qed

theorem lossless_text_validates_witness:
  "1 < length (split newline plusText) \<and>
   atxMatch (trim (split newline plusText ! 1)) \<noteq> None \<and>
   \<not> inCodeBlock (stateAfter plusText 1) \<and>
   countChar CHR ''*'' plusText = 6 \<and>
   countFences plusText = 4 \<and>
   lossless plusText \<and>
   countChar CHR ''*'' (transform plusText) = 6 \<and>
   countFences (transform plusText) = 4 \<and>
   validateMarkdown (transform plusText)"
proof -
  have h1: "1 < length (split newline plusText)" by code_simp
  have h2: "atxMatch (trim (split newline plusText ! 1)) \<noteq> None" by code_simp
  have h3: "\<not> inCodeBlock (stateAfter plusText 1)" by code_simp
  have h4: "countChar CHR ''*'' plusText = 6" by code_simp
  have h5: "countFences plusText = 4" by code_simp
  have h6: "lossless plusText" by code_simp
  from lossless_text_validates[OF h1 h2 h3 _ _ h6] h1 h2 h3 h4 h5 h6
  show ?thesis by simp
qed

section \<open>The title-case fallback\<close>

lemma spec_word_is_title_word:
  "capitalizedWord w \<or> allUppercaseWord w \<Longrightarrow> capitalStart w \<or> allCapitals w"
  by (cases w; cases "tl w")
     (auto simp: capitalizedWord_def allUppercaseWord_def capitalStart_def allCapitals_def)

lemma filter_length_mono:
  "(\<And>x. P x \<Longrightarrow> Q x) \<Longrightarrow> length (filter P xs) \<le> length (filter Q xs)"
  by (induction xs) auto

lemma spec_ratio_isTitleCase:
  assumes "5 * capitalizedCount line > 3 * wordCount line"
  shows "isTitleCase line"
proof -
  have "capitalizedCount line \<le>
        length (filter (\<lambda>w. capitalStart w \<or> allCapitals w) (split CHR '' '' line))"
    unfolding capitalizedCount_def
    by (rule filter_length_mono) (rule spec_word_is_title_word)
  with assms show ?thesis
    unfolding isTitleCase_def wordCount_def Let_def by linarith
qed

lemma no_other_rule:
  assumes "atxMatch line = None" and "\<not> setextNext lines index"
    and "firstPattern metadataPatterns line = None"
  shows "analyzeHeading line lines index =
     (if isTitleCase line \<and> length line < 60 then
        \<lparr>isHeading = True, headingText = trim line, remainingContent = [], hlevel = Some 2\<rparr>
      else \<lparr>isHeading = False, headingText = [], remainingContent = line, hlevel = None\<rparr>)"
  using assms unfolding analyzeHeading_def setextNext_def by auto

lemma capitalizedCount_alt:
  "capitalizedCount line = length (filter specWord (split CHR '' '' line))"
proof -
  have "specWord = (\<lambda>w. capitalizedWord w \<or> allUppercaseWord w)"
    by (intro ext) (simp add: specWord_def)
  then show ?thesis by (simp add: capitalizedCount_def)
qed

lemma space_not_upper: "isSpace c \<Longrightarrow> \<not> isUpper c"
  by (auto simp: isSpace_def isUpper_def)

lemma space_not_lower: "isSpace c \<Longrightarrow> \<not> isLower c"
  by (auto simp: isSpace_def isLower_def)

lemma specWord_Nil: "\<not> specWord []"
  by (simp add: specWord_def capitalizedWord_def allUppercaseWord_def)

lemma specWord_leading: "isSpace c \<Longrightarrow> \<not> specWord (c # w)"
  by (simp add: specWord_def capitalizedWord_def allUppercaseWord_def space_not_upper)

lemma specWord_trailing: "isSpace c \<Longrightarrow> \<not> specWord (w @ [c])"
  by (cases w)
     (simp_all add: specWord_def capitalizedWord_def allUppercaseWord_def space_not_upper
        space_not_lower)

lemma split_snoc_other:
  "c \<noteq> d \<Longrightarrow> split d (s @ [c]) = butlast (split d s) @ [last (split d s) @ [c]]"
proof (induction s)
  case Nil
  then show ?case by simp
next
  case (Cons x s)
  obtain w ws where sp: "split d s = w # ws"
    using split_nonempty[of d s] by (cases "split d s") auto
  obtain w' ws' where sp': "split d (s @ [c]) = w' # ws'"
    using split_nonempty[of d "s @ [c]"] by (cases "split d (s @ [c])") auto
  from Cons sp sp' show ?case
    by (cases ws) (auto split: if_splits)
qed

lemma words_drop_leading:
  assumes "isSpace c"
  shows "length (filter specWord (split CHR '' '' (c # s))) \<le>
           length (filter specWord (split CHR '' '' s)) \<and>
         length (split CHR '' '' s) \<le> length (split CHR '' '' (c # s))"
proof (cases "c = CHR '' ''")
  case True
  then show ?thesis by (simp add: specWord_Nil)
next
  case False
  obtain w ws where sp: "split CHR '' '' s = w # ws"
    using split_nonempty[of "CHR '' ''" s] by (cases "split CHR '' '' s") auto
  show ?thesis using False sp specWord_leading[OF assms] by simp
qed

lemma words_drop_trailing:
  assumes "isSpace c"
  shows "length (filter specWord (split CHR '' '' (s @ [c]))) \<le>
           length (filter specWord (split CHR '' '' s)) \<and>
         length (split CHR '' '' s) \<le> length (split CHR '' '' (s @ [c]))"
proof (cases "c = CHR '' ''")
  case True
  then show ?thesis by (simp add: split_snoc_sep specWord_Nil)
next
  case False
  define ws where "ws = split CHR '' '' s"
  have ne: "ws \<noteq> []" unfolding ws_def by (rule split_nonempty)
  then have ws: "ws = butlast ws @ [last ws]" by simp
  have "length (filter specWord (butlast ws)) \<le> length (filter specWord ws)"
    by (subst (2) ws) simp
  moreover have "length ws = length (butlast ws @ [last ws @ [c]])" using ne by simp
  ultimately show ?thesis
    using False specWord_trailing[OF assms] unfolding ws_def[symmetric]
    by (simp add: split_snoc_other ws_def[symmetric])
qed

lemma words_skip_leading:
  "length (filter specWord (split CHR '' '' s)) \<le>
     length (filter specWord (split CHR '' '' (dropWhile isSpace s))) \<and>
   length (split CHR '' '' (dropWhile isSpace s)) \<le> length (split CHR '' '' s)"
proof (induction s)
  case Nil
  show ?case by simp
next
  case (Cons c s)
  show ?case
  proof (cases "isSpace c")
    case True
    with Cons words_drop_leading[OF True, of s] show ?thesis by force
  next
    case False
    then show ?thesis by simp
  qed
qed

lemma words_skip_trailing:
  "length (filter specWord (split CHR '' '' (rev v))) \<le>
     length (filter specWord (split CHR '' '' (rev (dropWhile isSpace v)))) \<and>
   length (split CHR '' '' (rev (dropWhile isSpace v))) \<le> length (split CHR '' '' (rev v))"
proof (induction v)
  case Nil
  show ?case by simp
next
  case (Cons c v)
  show ?case
  proof (cases "isSpace c")
    case True
    with Cons words_drop_trailing[OF True, of "rev v"] show ?thesis by force
  next
    case False
    then show ?thesis by simp
  qed
qed

lemma words_trim:
  "capitalizedCount line \<le> capitalizedCount (trim line) \<and>
   wordCount (trim line) \<le> wordCount line"
  using words_skip_leading[of line] words_skip_trailing[of "rev (dropWhile isSpace line)"]
  unfolding capitalizedCount_alt wordCount_def trim_def by force

lemma spec_ratio_trim:
  assumes "5 * capitalizedCount line > 3 * wordCount line"
  shows "isTitleCase (trim line)"
proof -
  have "5 * capitalizedCount (trim line) > 3 * wordCount (trim line)"
    using assms words_trim[of line] by linarith
  then show ?thesis by (rule spec_ratio_isTitleCase)
qed

lemma isTitleCase_nonempty: "isTitleCase t \<Longrightarrow> t \<noteq> []"
  by (auto simp: isTitleCase_def capitalStart_def allCapitals_def)


lemma plain_line_blocks:
  assumes "\<not> startsWith (trim line) ''```''" and "\<not> inCodeBlock st"
    and "trim line \<noteq> []" and "\<not> startsWith (trim line) ''>''"
    and "detectListType line = None" and "\<not> isHeading (analyzeHeading (trim line) lines i)"
  shows "analyzeLine lines st (i, line) = plainStep st (trim line)"
  using assms by (simp add: analyzeLine_def Let_def plainStep_def)


text \<open>
  Claim C8, as the code has it.  A line of 61 characters, the 59-character line followed
  by two spaces, with eleven of its thirteen space-separated words capitalized and no
  marker, is classified as a heading of level 2: the assembler trims the line before
  the length is tested.  And a line of 59 characters whose twelve words all begin with
  an accented capital is not a heading: only the letters \<open>A-Z\<close> count as capitals.
\<close>

theorem length_is_taken_after_trimming:
  "length paddedLine = 61 \<and>
   5 * capitalizedCount paddedLine > 3 * wordCount paddedLine \<and>
   \<not> startsWith (trim paddedLine) ''```'' \<and> \<not> startsWith (trim paddedLine) ''>'' \<and>
   detectListType paddedLine = None \<and> atxMatch (trim paddedLine) = None \<and>
   firstPattern metadataPatterns (trim paddedLine) = None \<and>
   analyzeTextStructure paddedLine = [headingBlock line59 (Some 2)] \<and>
   length accentLine = 59 \<and>
   5 * latinCapitalizedCount accentLine > 3 * wordCount accentLine \<and>
   analyzeTextStructure accentLine = [mkBlock Paragraph accentLine]"
  by code_simp


text \<open>
  Claim C8, amended.  Take a line outside a code block in which more than 60 percent of
  the space-separated words are capitalized (a letter \<open>A-Z\<close>, then letters \<open>a-z\<close>
  only) or consist of letters \<open>A-Z\<close> only, and which has no fence, quote or list marker,
  no ATX marker, no Setext underline after it and no match in the pattern table.  If
  the trimmed line has fewer than 60 characters (59, say) the assembler appends a
  heading of level 2 whose text is the trimmed line; if the trimmed line has 60
  characters or more (61, say) the line is processed as plain text.
\<close>

theorem title_case_length_boundary:
  assumes "5 * capitalizedCount line > 3 * wordCount line"
    and "\<not> inCodeBlock st" and "\<not> startsWith (trim line) ''```''"
    and "\<not> startsWith (trim line) ''>''" and "detectListType line = None"
    and "atxMatch (trim line) = None" and "\<not> setextNext lines i"
    and "firstPattern metadataPatterns (trim line) = None"
  shows "(length (trim line) < 60 \<longrightarrow>
            analyzeLine lines st (i, line) =
              st\<lparr>blocks := pushCurrent st @ [headingBlock (trim line) (Some 2)],
                 currentBlock := None\<rparr>) \<and>
         (60 \<le> length (trim line) \<longrightarrow>
            analyzeLine lines st (i, line) = plainStep st (trim line))"
proof (intro conjI impI)
  have tc: "isTitleCase (trim line)" using assms(1) by (rule spec_ratio_trim)
  then have ne: "trim line \<noteq> []" by (rule isTitleCase_nonempty)
  note r = no_other_rule[OF assms(6,7,8)]
  {
    assume "length (trim line) < 60"
    with tc r have h: "analyzeHeading (trim line) lines i =
        \<lparr>isHeading = True, headingText = trim (trim line), remainingContent = [],
         hlevel = Some 2\<rparr>"
      by simp
    then have "isHeading (analyzeHeading (trim line) lines i)" by simp
    from heading_line_blocks[OF assms(3,2) ne assms(4,5) this]
    show "analyzeLine lines st (i, line) =
        st\<lparr>blocks := pushCurrent st @ [headingBlock (trim line) (Some 2)], currentBlock := None\<rparr>"
      unfolding h by (simp add: trim_idem)
  }
  {
    assume "60 \<le> length (trim line)"
    with r have "\<not> isHeading (analyzeHeading (trim line) lines i)" by simp
    from plain_line_blocks[OF assms(3,2) ne assms(4,5) this]
    show "analyzeLine lines st (i, line) = plainStep st (trim line)" .
  }
qed

theorem title_case_length_boundary_witness:
  "length indentedLine = 61 \<and> length (trim indentedLine) = 59 \<and>
   5 * capitalizedCount indentedLine > 3 * wordCount indentedLine \<and>
   analyzeLine [indentedLine] initState (0, indentedLine) =
     initState\<lparr>blocks := pushCurrent initState @ [headingBlock (trim indentedLine) (Some 2)],
        currentBlock := None\<rparr> \<and>
   length (trim line61) = 61 \<and>
   5 * capitalizedCount line61 > 3 * wordCount line61 \<and>
   analyzeLine [line61] initState (0, line61) = plainStep initState (trim line61)"
proof -
  have l: "length indentedLine = 61" "length (trim indentedLine) = 59"
    "length (trim line61) = 61"
    by code_simp+
  have r: "5 * capitalizedCount indentedLine > 3 * wordCount indentedLine"
    "5 * capitalizedCount line61 > 3 * wordCount line61"
    by code_simp+
  have c: "\<not> inCodeBlock initState" by (simp add: initState_def)
  have f: "\<not> startsWith (trim indentedLine) ''```''" "\<not> startsWith (trim line61) ''```''"
    by code_simp+
  have q: "\<not> startsWith (trim indentedLine) ''>''" "\<not> startsWith (trim line61) ''>''"
    by code_simp+
  have d: "detectListType indentedLine = None" "detectListType line61 = None"
    by code_simp+
  have a: "atxMatch (trim indentedLine) = None" "atxMatch (trim line61) = None"
    by code_simp+
  have n: "\<not> setextNext [indentedLine] 0" "\<not> setextNext [line61] 0"
    by (simp_all add: setextNext_def)
  have p: "firstPattern metadataPatterns (trim indentedLine) = None"
    "firstPattern metadataPatterns (trim line61) = None"
    by code_simp+
  note t1 = title_case_length_boundary[OF r(1) c f(1) q(1) d(1) a(1) n(1) p(1)]
  note t2 = title_case_length_boundary[OF r(2) c f(2) q(2) d(2) a(2) n(2) p(2)]
  from t1 t2 l r show ?thesis by simp
qed

end
